theory Spec2Isabelle
  imports
    Main
    "HOL-Library.Word"
    "HOL-Library.Multiset"
    "HOL-Library.Char_ord"
    "HOL-Library.List_Lexorder"
    "HOL-Library.Product_Lexorder"
begin

unbundle bit_operations_syntax

section \<open>Bytes, errors and the 80-byte record codec\<close>

text \<open>
  Text bytes (the CSV, index keys, Go strings) are \<open>char\<close>s, ordered by their byte value
  (\<open>Char_ord\<close>); byte strings are compared lexicographically (\<open>List_Lexorder\<close>), which is what
  \<open>bytes.Compare\<close> and Go's string comparison compute. \<open>int64\<close> fields of an index record are
  64-bit words, read as two's complement by \<open>sint\<close>.
\<close>

datatype error =
    EOF
  | ErrUnexpectedEOF
  | SeekError
  | ShortRead
  | LZ4Error
  | FooterError
  | Panic
  | CsvPathRequired
  | NoWhereOrGroupBy
  | OpenFailed
  | UpdatesReadFailed
  | UpdatesParseFailed
  | EmptyOrInvalidCsv
  | ColumnNotFound
  | NoIndexFound

definition NUL :: char where
  "NUL = CHR 0x00"

record IndexRecord =
  Key :: string
  Offset :: "64 word"
  Line :: "64 word"

definition RecordSize :: nat where
  "RecordSize = 64 + 8 + 8"

text \<open>
  The order of the sorter and of the merge heap (\<open>mergeItem.Less\<close>): key bytes first, then
  the offset as a signed integer. \<open>sort_key\<close> is the pair it compares.
\<close>

definition sort_key :: "IndexRecord \<Rightarrow> string \<times> int" where
  "sort_key rc = (Key rc, sint (Offset rc))"

text \<open>\<open>binary.BigEndian.PutUint64\<close> and \<open>binary.BigEndian.Uint64\<close>.\<close>

fun be_bytes :: "nat \<Rightarrow> nat \<Rightarrow> string" where
  "be_bytes 0 x = []"
| "be_bytes (Suc n) x = be_bytes n (x div 256) @ [char_of (x mod 256)]"

definition be_value :: "string \<Rightarrow> nat" where
  "be_value b = foldl (\<lambda>a c. a * 256 + of_char c) 0 b"

definition PutUint64 :: "64 word \<Rightarrow> string" where
  "PutUint64 v = be_bytes 8 (unat v)"

definition Uint64 :: "string \<Rightarrow> 64 word" where
  "Uint64 b = word_of_nat (be_value b)"

text \<open>
  \<open>copy(dst[0:64], src)\<close> into a zeroed destination: at most 64 bytes, the rest stays zero.
  The same copy builds the fixed key of a record from a scanned key
  (\<open>var keyBytes [64]byte; copy(keyBytes[:], key)\<close>).
\<close>

definition copy64 :: "string \<Rightarrow> string" where
  "copy64 k = take 64 (k @ replicate 64 NUL)"

text \<open>\<open>WriteBatchRecords\<close>: each record is its key, its offset and its line, back to back.\<close>

definition encode_record :: "IndexRecord \<Rightarrow> string" where
  "encode_record r = copy64 (Key r) @ PutUint64 (Offset r) @ PutUint64 (Line r)"

definition WriteBatchRecords :: "IndexRecord list \<Rightarrow> string" where
  "WriteBatchRecords recs = concat (map encode_record recs)"

definition decode_record :: "string \<Rightarrow> IndexRecord" where
  "decode_record buf =
     \<lparr>Key = take 64 buf,
      Offset = Uint64 (take 8 (drop 64 buf)),
      Line = Uint64 (take 8 (drop 72 buf))\<rparr>"

text \<open>
  \<open>ReadRecord\<close> on a reader whose remaining bytes are \<open>s\<close>: \<open>io.ReadFull\<close> of 80 bytes gives
  \<open>io.EOF\<close> when nothing is left and \<open>io.ErrUnexpectedEOF\<close> on a partial record.
\<close>

definition ReadRecord :: "string \<Rightarrow> error + (IndexRecord \<times> string)" where
  "ReadRecord s =
     (if RecordSize \<le> length s then Inr (decode_record (take RecordSize s), drop RecordSize s)
      else if s = [] then Inl EOF
      else Inl ErrUnexpectedEOF)"

section \<open>Block writer and block reader\<close>

record BlockMeta =
  StartKey :: string
  Offset_m :: int
  Length_m :: int
  RecordCount :: int
  IsDistinct :: bool

text \<open>
  A \<open>.cidx\<close> file: the magic and the compressed blocks as bytes, and the directory. The
  directory is kept as the value that \<open>encoding/json\<close> writes and reads back (its byte encoding
  and the 8-byte length trailer are the library's); \<open>None\<close> is a file whose trailer cannot be
  read, such as the empty file. Two things the library does are outside this value: a start
  key that is not valid UTF-8 comes back with the offending bytes replaced by U+FFFD, and a
  trailer that holds a negative length makes \<open>NewBlockReader\<close> panic in \<open>make\<close> instead of
  returning an error. The files considered here are written by the block writer, and the
  start keys of the examples are ASCII.
\<close>

record cidx_file =
  body :: string
  footer :: "BlockMeta list option"

definition MagicCIDX :: string where
  "MagicCIDX = ''CIDX''"

definition BlockTargetSize :: nat where
  "BlockTargetSize = 64 * 1024"

record BlockWriter =
  w :: string
  buffer :: "IndexRecord list"
  currentSize :: nat
  sparseIndex :: "BlockMeta list"
  offset :: int

definition NewBlockWriter :: BlockWriter where
  "NewBlockWriter =
     \<lparr>w = MagicCIDX, buffer = [], currentSize = 0, sparseIndex = [],
      offset = int (length MagicCIDX)\<rparr>"

text \<open>\<open>bytes.TrimRight(key, "\x00")\<close>.\<close>

definition TrimRight0 :: "string \<Rightarrow> string" where
  "TrimRight0 k = rev (dropWhile (\<lambda>c. c = NUL) (rev k))"

text \<open>
  \<open>FlushBlock\<close>, with the LZ4 frame compressor of the library as the parameter \<open>lz4c\<close>.
  The buffer is not empty where \<open>hd\<close> is taken.
\<close>

definition FlushBlock :: "(string \<Rightarrow> string) \<Rightarrow> BlockWriter \<Rightarrow> BlockWriter" where
  "FlushBlock lz4c bw =
     (if buffer bw = [] then bw
      else
        let compressedBytes = lz4c (WriteBatchRecords (buffer bw));
            keyStr = TrimRight0 (Key (hd (buffer bw)));
            isDistinct = (\<forall>r \<in> set (tl (buffer bw)). Key (hd (buffer bw)) = Key r);
            meta = \<lparr>StartKey = keyStr, Offset_m = offset bw,
                    Length_m = int (length compressedBytes),
                    RecordCount = int (length (buffer bw)),
                    IsDistinct = isDistinct\<rparr>
        in bw\<lparr>sparseIndex := sparseIndex bw @ [meta],
              w := w bw @ compressedBytes,
              offset := offset bw + int (length compressedBytes),
              buffer := [],
              currentSize := 0\<rparr>)"

definition WriteRecord :: "(string \<Rightarrow> string) \<Rightarrow> BlockWriter \<Rightarrow> IndexRecord \<Rightarrow> BlockWriter" where
  "WriteRecord lz4c bw rec =
     (let bw1 = bw\<lparr>buffer := buffer bw @ [rec],
                    currentSize := currentSize bw + (64 + 16)\<rparr>
      in if BlockTargetSize \<le> currentSize bw1 then FlushBlock lz4c bw1 else bw1)"

definition Close :: "(string \<Rightarrow> string) \<Rightarrow> BlockWriter \<Rightarrow> cidx_file" where
  "Close lz4c bw =
     (let bw1 = FlushBlock lz4c bw
      in \<lparr>body = w bw1, footer = Some (sparseIndex bw1)\<rparr>)"

record BlockReader =
  r :: string
  Footer :: "BlockMeta list"

definition NewBlockReader :: "cidx_file \<Rightarrow> error + BlockReader" where
  "NewBlockReader f =
     (case footer f of
        None \<Rightarrow> Inl FooterError
      | Some blocks \<Rightarrow> Inr \<lparr>r = body f, Footer = blocks\<rparr>)"

text \<open>The loop of \<open>ReadBlock\<close>: records are read until the reader reports \<open>io.EOF\<close>.\<close>

function read_records :: "string \<Rightarrow> IndexRecord list \<Rightarrow> error + IndexRecord list" where
  "read_records s recBuf =
     (case ReadRecord s of
        Inl e \<Rightarrow> (if e = EOF then Inr recBuf else Inl e)
      | Inr (rec, rest) \<Rightarrow> read_records rest (recBuf @ [rec]))"
  by pat_completeness auto
termination
  by (relation "measure (\<lambda>(s, recBuf). length s)")
     (auto simp: ReadRecord_def RecordSize_def split: if_splits)

text \<open>
  \<open>ReadBlock\<close>, with the LZ4 frame decompressor as the parameter \<open>lz4d\<close> (\<open>None\<close> when the
  library reports corrupt input). A negative offset fails the seek, a negative length
  panics in \<open>make\<close>, and fewer than \<open>Length\<close> bytes at the offset fail \<open>io.ReadFull\<close>.
\<close>

definition ReadBlock ::
  "(string \<Rightarrow> string option) \<Rightarrow> BlockReader \<Rightarrow> BlockMeta \<Rightarrow> error + IndexRecord list" where
  "ReadBlock lz4d br meta =
     (if Offset_m meta < 0 then Inl SeekError
      else if Length_m meta < 0 then Inl Panic
      else
        let needed = nat (Length_m meta);
            compBuf = take needed (drop (nat (Offset_m meta)) (r br))
        in if length compBuf < needed then Inl ShortRead
           else case lz4d compBuf of
                  None \<Rightarrow> Inl LZ4Error
                | Some raw \<Rightarrow> read_records raw [])"

subsection \<open>The codec reads back what it wrote\<close>

lemma length_be_bytes: "length (be_bytes n x) = n"
  by (induction n arbitrary: x) auto

lemma be_value_append: "be_value (xs @ [c]) = be_value xs * 256 + of_char c"
  by (simp add: be_value_def)

lemma be_value_be_bytes: "be_value (be_bytes n x) = x mod 256 ^ n"
proof (induction n arbitrary: x)
  case 0
  then show ?case by (simp add: be_value_def)
next
  case (Suc n)
  have "be_value (be_bytes (Suc n) x) = (x div 256) mod 256 ^ n * 256 + x mod 256"
    by (simp add: be_value_append Suc)
  also have "\<dots> = x mod 256 ^ Suc n"
    by (simp add: mod_mult2_eq)
  finally show ?case .
qed

lemma Uint64_PutUint64: "Uint64 (PutUint64 v) = v"
proof -
  have "unat v < 2 ^ 64" using unsigned_less [of v] by simp
  then have "unat v mod 256 ^ 8 = unat v" by simp
  then show ?thesis by (simp add: Uint64_def PutUint64_def be_value_be_bytes)
qed

lemma length_PutUint64: "length (PutUint64 v) = 8"
  by (simp add: PutUint64_def length_be_bytes)

lemma length_copy64: "length (copy64 k) = 64"
  by (simp add: copy64_def)

lemma copy64_id: "length k = 64 \<Longrightarrow> copy64 k = k"
  by (simp add: copy64_def)

lemma length_encode_record: "length (encode_record rc) = 80"
  by (simp add: encode_record_def length_PutUint64 length_copy64)

lemma decode_encode_record:
  "length (Key rc) = 64 \<Longrightarrow> decode_record (encode_record rc @ rest) = rc"
  by (simp add: decode_record_def encode_record_def copy64_id length_PutUint64 Uint64_PutUint64)

lemma ReadRecord_encode:
  "length (Key rc) = 64 \<Longrightarrow> ReadRecord (encode_record rc @ rest) = Inr (rc, rest)"
  using decode_encode_record [of rc "[]"]
  by (simp add: ReadRecord_def RecordSize_def length_encode_record)

lemma read_records_batch:
  "\<forall>rc \<in> set recs. length (Key rc) = 64 \<Longrightarrow>
   read_records (WriteBatchRecords recs) acc = Inr (acc @ recs)"
proof (induction recs arbitrary: acc)
  case Nil
  then show ?case by (simp add: WriteBatchRecords_def ReadRecord_def RecordSize_def)
next
  case (Cons a recs)
  then show ?case
    by (simp add: WriteBatchRecords_def ReadRecord_encode)
qed

text \<open>The writer's \<open>offset\<close> is the number of bytes it has written.\<close>

lemma FlushBlock_inv:
  "offset bw = int (length (w bw)) \<Longrightarrow>
   offset (FlushBlock lz4c bw) = int (length (w (FlushBlock lz4c bw)))"
  by (simp add: FlushBlock_def Let_def)

lemma WriteRecord_inv:
  "offset bw = int (length (w bw)) \<Longrightarrow>
   offset (WriteRecord lz4c bw rc) = int (length (w (WriteRecord lz4c bw rc)))"
  by (simp add: WriteRecord_def Let_def FlushBlock_inv)

lemma NewBlockWriter_inv: "offset NewBlockWriter = int (length (w NewBlockWriter))"
  by (simp add: NewBlockWriter_def)

definition sample_rec :: IndexRecord where
  "sample_rec = \<lparr>Key = copy64 ''Eng'', Offset = 13, Line = 2\<rparr>"

text \<open>
  Claim C3. Whenever the block writer flushes a non-empty buffer of records (keys of 64
  bytes, as the type \<open>[64]byte\<close> has them) as one block, \<open>ReadBlock\<close> with the directory entry
  that the flush appended (seek to its offset, read its length, decompress, decode 80-byte
  records) returns the buffered records themselves: the same number, in the same order, with
  the same key bytes, offsets and lines. The file may have grown by \<open>later\<close> bytes since the
  flush. The LZ4 library is assumed to decompress what it compressed, and the writer's
  offset counts the bytes written, as it does from \<open>NewBlockWriter\<close> on
  (\<open>NewBlockWriter_inv\<close>, \<open>WriteRecord_inv\<close>, \<open>FlushBlock_inv\<close>).
\<close>

theorem block_roundtrip:
  assumes lz4: "\<forall>b. lz4d (lz4c b) = Some b"
    and inv: "offset bw = int (length (w bw))"
    and ne: "buffer bw \<noteq> []"
    and keys: "\<forall>rc \<in> set (buffer bw). length (Key rc) = 64"
  shows "ReadBlock lz4d \<lparr>r = w (FlushBlock lz4c bw) @ later, Footer = dir\<rparr>
           (last (sparseIndex (FlushBlock lz4c bw))) = Inr (buffer bw)
         \<and> RecordCount (last (sparseIndex (FlushBlock lz4c bw))) = int (length (buffer bw))"
proof -
  have "read_records (WriteBatchRecords (buffer bw)) [] = Inr (buffer bw)"
    using read_records_batch [OF keys, of "[]"] by simp
  then show ?thesis
    using lz4 inv ne by (simp add: FlushBlock_def ReadBlock_def Let_def)
qed

theorem block_roundtrip_witness:
  "ReadBlock Some
     \<lparr>r = w (FlushBlock id (NewBlockWriter\<lparr>buffer := [sample_rec]\<rparr>)), Footer = []\<rparr>
     (last (sparseIndex (FlushBlock id (NewBlockWriter\<lparr>buffer := [sample_rec]\<rparr>))))
   = Inr [sample_rec]"
  using block_roundtrip [of Some id "NewBlockWriter\<lparr>buffer := [sample_rec]\<rparr>" "[]" "[]"]
  by (simp add: NewBlockWriter_def sample_rec_def length_copy64)

section \<open>Bloom filter\<close>

text \<open>
  Go's \<open>int\<close> is 64 bits wide on the platforms the memory mapping targets: sums and products
  wrap around (\<open>wrap64\<close>), and \<open>/\<close> and \<open>%\<close> truncate towards zero (\<open>go_quot\<close>,
  \<open>go_rem\<close>). The bit array is a list of 8-bit words.
\<close>

definition wrap64 :: "int \<Rightarrow> int" where
  "wrap64 x = (x + 2 ^ 63) mod 2 ^ 64 - 2 ^ 63"

definition go_quot :: "int \<Rightarrow> int \<Rightarrow> int" where
  "go_quot a b = sgn a * sgn b * (\<bar>a\<bar> div \<bar>b\<bar>)"

definition go_rem :: "int \<Rightarrow> int \<Rightarrow> int" where
  "go_rem a b = sgn a * (\<bar>a\<bar> mod \<bar>b\<bar>)"

text \<open>\<open>crc32.ChecksumIEEE\<close>: the reflected CRC-32 with polynomial \<open>0xEDB88320\<close>.\<close>

definition crc32_step :: "32 word \<Rightarrow> 32 word" where
  "crc32_step c = (if bit c 0 then drop_bit 1 c XOR 0xEDB88320 else drop_bit 1 c)"

definition crc32_byte :: "32 word \<Rightarrow> char \<Rightarrow> 32 word" where
  "crc32_byte crc b = (crc32_step ^^ 8) (crc XOR of_char b)"

definition ChecksumIEEE :: "string \<Rightarrow> 32 word" where
  "ChecksumIEEE s = NOT (foldl crc32_byte (NOT 0) s)"

record BloomFilter =
  bits :: "8 word list"
  size_bf :: int
  hashCount :: int
  count_bf :: int

text \<open>
  \<open>NewBloomFilter(n, fpRate)\<close> computes \<open>m\<close> and \<open>k\<close> in floating point and converts them
  to \<open>int\<close>. The two conversions are the parameters here: \<open>m0\<close> is the value of
  \<open>int(-float64(n) * ln(fpRate) / 0.4804)\<close> and \<open>k0\<close> the value of
  \<open>int(float64(m) / float64(n) * 0.693)\<close>; the integer code after them is as written.
  \<open>make([]byte, m/8)\<close> panics on a negative length (\<open>None\<close>).
\<close>

definition NewBloomFilter :: "64 word \<Rightarrow> 64 word \<Rightarrow> BloomFilter option" where
  "NewBloomFilter m0 k0 =
     (let m1 = (if sint m0 < 1024 then 1024 else sint m0);
          m = wrap64 (go_quot (wrap64 (m1 + 7)) 8 * 8);
          k1 = (if sint k0 < 1 then 1 else sint k0);
          k = (if 10 < k1 then 10 else k1)
      in if go_quot m 8 < 0 then None
         else Some \<lparr>bits = replicate (nat (go_quot m 8)) 0, size_bf = m, hashCount = k,
                     count_bf = 0\<rparr>)"

definition appendReversed :: "string \<Rightarrow> string \<Rightarrow> string" where
  "appendReversed dst s = dst @ rev s"

text \<open>
  The byte and bit index of the \<open>i\<close>-th probe, shared by \<open>Add\<close> and \<open>MightContain\<close>:
  \<open>combined := int(h1) + i*int(h2)\<close>, negated when negative, then \<open>pos := combined % bf.size\<close>,
  \<open>byteIdx := pos / 8\<close>, \<open>bitIdx := pos % 8\<close>. \<open>None\<close> is a run-time panic: division by a
  zero size, an index outside \<open>bf.bits\<close>, a negative shift count.
\<close>

definition probe :: "BloomFilter \<Rightarrow> 32 word \<Rightarrow> 32 word \<Rightarrow> int \<Rightarrow> (nat \<times> nat) option" where
  "probe bf h1 h2 i =
     (let c0 = wrap64 (uint h1 + wrap64 (i * uint h2));
          combined = (if c0 < 0 then wrap64 (- c0) else c0)
      in if size_bf bf = 0 then None
         else
           let pos = go_rem combined (size_bf bf);
               byteIdx = go_quot pos 8;
               bitIdx = go_rem pos 8
           in if byteIdx < 0 \<or> int (length (bits bf)) \<le> byteIdx \<or> bitIdx < 0 then None
              else Some (nat byteIdx, nat bitIdx))"

fun set_bits :: "BloomFilter \<Rightarrow> 32 word \<Rightarrow> 32 word \<Rightarrow> int list \<Rightarrow> BloomFilter option" where
  "set_bits bf h1 h2 [] = Some bf"
| "set_bits bf h1 h2 (i # rest) =
     (case probe bf h1 h2 i of
        None \<Rightarrow> None
      | Some (byteIdx, bitIdx) \<Rightarrow>
          set_bits (bf\<lparr>bits := (bits bf)[byteIdx := (bits bf ! byteIdx) OR push_bit bitIdx 1]\<rparr>)
            h1 h2 rest)"

definition Add :: "BloomFilter \<Rightarrow> string \<Rightarrow> BloomFilter option" where
  "Add bf key =
     (let h1 = ChecksumIEEE key;
          h2 = ChecksumIEEE (appendReversed [] key @ ''salt'')
      in case set_bits bf h1 h2 [0 .. hashCount bf - 1] of
           None \<Rightarrow> None
         | Some bf1 \<Rightarrow> Some (bf1\<lparr>count_bf := wrap64 (count_bf bf1 + 1)\<rparr>))"

fun test_bits :: "BloomFilter \<Rightarrow> 32 word \<Rightarrow> 32 word \<Rightarrow> int list \<Rightarrow> bool option" where
  "test_bits bf h1 h2 [] = Some True"
| "test_bits bf h1 h2 (i # rest) =
     (case probe bf h1 h2 i of
        None \<Rightarrow> None
      | Some (byteIdx, bitIdx) \<Rightarrow>
          if (bits bf ! byteIdx) AND push_bit bitIdx 1 = 0 then Some False
          else test_bits bf h1 h2 rest)"

definition MightContain :: "BloomFilter \<Rightarrow> string \<Rightarrow> bool option" where
  "MightContain bf key =
     (let h1 = ChecksumIEEE key;
          h2 = ChecksumIEEE (appendReversed [] key @ ''salt'')
      in test_bits bf h1 h2 [0 .. hashCount bf - 1])"

text \<open>The keys of a build are added one after the other; a panic ends the build.\<close>

fun add_all :: "BloomFilter \<Rightarrow> string list \<Rightarrow> BloomFilter option" where
  "add_all bf [] = Some bf"
| "add_all bf (key # keys) =
     (case Add bf key of None \<Rightarrow> None | Some bf1 \<Rightarrow> add_all bf1 keys)"

text \<open>
  The 24-byte header holds \<open>uint64(size)\<close>, \<open>uint64(hashCount)\<close> and \<open>uint64(count)\<close>,
  big-endian; reading converts back with \<open>int(...)\<close>. \<open>LoadBloomFilterMmap\<close> hands the mapped
  file to the same \<open>DeserializeBloom\<close>.
\<close>

fun be_words :: "nat \<Rightarrow> nat \<Rightarrow> 8 word list" where
  "be_words 0 x = []"
| "be_words (Suc n) x = be_words n (x div 256) @ [of_nat (x mod 256)]"

definition be_words_value :: "8 word list \<Rightarrow> nat" where
  "be_words_value b = foldl (\<lambda>a c. a * 256 + unat c) 0 b"

definition uint64_of_int :: "int \<Rightarrow> nat" where
  "uint64_of_int x = nat (x mod 2 ^ 64)"

definition Serialize :: "BloomFilter \<Rightarrow> 8 word list" where
  "Serialize bf =
     be_words 8 (uint64_of_int (size_bf bf)) @ be_words 8 (uint64_of_int (hashCount bf))
       @ be_words 8 (uint64_of_int (count_bf bf)) @ bits bf"

definition DeserializeBloom :: "8 word list \<Rightarrow> BloomFilter option" where
  "DeserializeBloom data =
     (if length data < 24 then None
      else Some \<lparr>bits = drop 24 data,
                 size_bf = wrap64 (int (be_words_value (take 8 data))),
                 hashCount = wrap64 (int (be_words_value (take 8 (drop 8 data)))),
                 count_bf = wrap64 (int (be_words_value (take 8 (drop 16 data))))\<rparr>)"

subsection \<open>No false negatives\<close>

text \<open>
  \<open>bf_ok\<close> is the shape every filter made by \<open>NewBloomFilter\<close> keeps: a positive size of
  \<open>8 * len(bits)\<close> bits and between 1 and 10 hashes. \<open>holds bf key\<close> says that every probe
  position of \<open>key\<close> is a set bit.
\<close>

definition bf_ok :: "BloomFilter \<Rightarrow> bool" where
  "bf_ok bf \<longleftrightarrow>
     0 < size_bf bf \<and> size_bf bf < 2 ^ 63 \<and> int (length (bits bf)) * 8 = size_bf bf
     \<and> 1 \<le> hashCount bf \<and> hashCount bf \<le> 10
     \<and> - (2 ^ 63) \<le> count_bf bf \<and> count_bf bf < 2 ^ 63"

lemma wrap64_id: "- (2 ^ 63) \<le> x \<Longrightarrow> x < 2 ^ 63 \<Longrightarrow> wrap64 x = x"
  by (simp add: wrap64_def)

lemma wrap64_range: "- (2 ^ 63) \<le> wrap64 x \<and> wrap64 x < 2 ^ 63"
proof -
  have "0 \<le> (x + 2 ^ 63) mod 2 ^ 64" "(x + 2 ^ 63) mod 2 ^ 64 < (2 ^ 64 :: int)"
    by simp_all
  moreover have "(2::int) ^ 64 = 2 ^ 63 + 2 ^ 63" by simp
  ultimately show ?thesis unfolding wrap64_def by linarith
qed

lemma go_rem_nonneg: "0 \<le> a \<Longrightarrow> 0 < b \<Longrightarrow> go_rem a b = a mod b"
  by (cases "a = 0") (simp_all add: go_rem_def)

lemma go_quot_nonneg: "0 \<le> a \<Longrightarrow> 0 < b \<Longrightarrow> go_quot a b = a div b"
  by (cases "a = 0") (simp_all add: go_quot_def)

lemma probe_ok:
  assumes ok: "bf_ok bf" and i: "0 \<le> i" "i \<le> 9"
  shows "\<exists>b k. probe bf h1 h2 i = Some (b, k) \<and> b < length (bits bf) \<and> k < 8"
proof -
  have h1: "0 \<le> uint h1" "uint h1 < 2 ^ 32" using uint_lt2p [of h1] by simp_all
  have h2: "0 \<le> uint h2" "uint h2 < 2 ^ 32" using uint_lt2p [of h2] by simp_all
  have p0: "0 \<le> i * uint h2" using i h2 by simp
  have "i * uint h2 \<le> 9 * 2 ^ 32" using i h2 by (intro mult_mono) simp_all
  then have p1: "i * uint h2 < 2 ^ 63" by simp
  have w1: "wrap64 (i * uint h2) = i * uint h2" using p0 p1 by (intro wrap64_id) simp_all
  have s0: "0 \<le> uint h1 + i * uint h2" using h1 p0 by simp
  have s1: "uint h1 + i * uint h2 < 2 ^ 63" using h1 \<open>i * uint h2 \<le> 9 * 2 ^ 32\<close> by simp
  have w2: "wrap64 (uint h1 + i * uint h2) = uint h1 + i * uint h2"
    using s0 s1 by (intro wrap64_id) simp_all
  define c where "c = uint h1 + i * uint h2"
  have cw: "wrap64 (uint h1 + wrap64 (i * uint h2)) = c" by (simp add: w1 w2 c_def)
  have c0: "0 \<le> c" using s0 by (simp add: c_def)
  from ok have sz: "0 < size_bf bf" and len: "int (length (bits bf)) * 8 = size_bf bf"
    by (simp_all add: bf_ok_def)
  define pos where "pos = c mod size_bf bf"
  have pos: "0 \<le> pos" "pos < size_bf bf" using sz by (simp_all add: pos_def)
  have gp: "go_rem c (size_bf bf) = pos" using c0 sz by (simp add: go_rem_nonneg pos_def)
  have q: "go_quot pos 8 = pos div 8" "go_rem pos 8 = pos mod 8"
    using pos by (simp_all add: go_quot_nonneg go_rem_nonneg)
  have b: "pos div 8 < int (length (bits bf))" using pos len by linarith
  have b0: "0 \<le> pos div 8" using pos by simp
  have "probe bf h1 h2 i = Some (nat (pos div 8), nat (pos mod 8))"
    using sz c0 b b0 by (simp add: probe_def cw Let_def gp q)
  moreover have "nat (pos div 8) < length (bits bf)" using b pos by linarith
  moreover have "nat (pos mod 8) < 8" by simp
  ultimately show ?thesis by blast
qed

lemma probe_cong:
  "size_bf bf' = size_bf bf \<Longrightarrow> length (bits bf') = length (bits bf) \<Longrightarrow>
   probe bf' h1 h2 i = probe bf h1 h2 i"
  by (simp add: probe_def Let_def)

lemma bit_set_word: "bit ((x :: 8 word) OR push_bit k 1) j \<longleftrightarrow> bit x j \<or> (j = k \<and> k < 8)"
  by (auto simp: bit_simps)


lemma bit_set_self: "k < 8 \<Longrightarrow> bit ((x :: 8 word) OR 2 ^ k) k"
  by (simp add: bit_simps)

definition hits :: "BloomFilter \<Rightarrow> 32 word \<Rightarrow> 32 word \<Rightarrow> int \<Rightarrow> bool" where
  "hits bf h1 h2 i \<longleftrightarrow>
     (\<exists>b k. probe bf h1 h2 i = Some (b, k) \<and> b < length (bits bf) \<and> bit (bits bf ! b) k)"

definition same_shape :: "BloomFilter \<Rightarrow> BloomFilter \<Rightarrow> bool" where
  "same_shape bf bf' \<longleftrightarrow>
     size_bf bf' = size_bf bf \<and> hashCount bf' = hashCount bf \<and> count_bf bf' = count_bf bf
     \<and> length (bits bf') = length (bits bf)
     \<and> (\<forall>b k. b < length (bits bf) \<and> bit (bits bf ! b) k \<longrightarrow> bit (bits bf' ! b) k)"

lemma same_shape_refl: "same_shape bf bf"
  by (simp add: same_shape_def)

lemma same_shape_trans: "same_shape a b \<Longrightarrow> same_shape b c \<Longrightarrow> same_shape a c"
  by (simp add: same_shape_def)

lemma same_shape_ok: "same_shape bf bf' \<Longrightarrow> bf_ok bf \<Longrightarrow> bf_ok bf'"
  by (simp add: same_shape_def bf_ok_def)

lemma same_shape_hits: "same_shape bf bf' \<Longrightarrow> hits bf h1 h2 i \<Longrightarrow> hits bf' h1 h2 i"
  unfolding hits_def using probe_cong [of bf' bf h1 h2 i]
  by (auto simp: same_shape_def)

lemma set_bits_props:
  "bf_ok bf \<Longrightarrow> \<forall>i \<in> set idxs. 0 \<le> i \<and> i \<le> 9 \<Longrightarrow>
   \<exists>bf'. set_bits bf h1 h2 idxs = Some bf' \<and> same_shape bf bf'
         \<and> (\<forall>i \<in> set idxs. hits bf' h1 h2 i)"
proof (induction idxs arbitrary: bf)
  case Nil
  then show ?case by (simp add: same_shape_refl)
next
  case (Cons i idxs)
  from Cons.prems obtain b k where
    p: "probe bf h1 h2 i = Some (b, k)" and b: "b < length (bits bf)" and k: "k < 8"
    using probe_ok [of bf i h1 h2] by auto
  define bf1 where "bf1 = bf\<lparr>bits := (bits bf)[b := (bits bf ! b) OR push_bit k 1]\<rparr>"
  have sh1: "same_shape bf bf1"
    using b by (auto simp: same_shape_def bf1_def nth_list_update bit_or_iff)
  have hit1: "hits bf1 h1 h2 i"
    unfolding hits_def using p b k probe_cong [of bf1 bf h1 h2 i]
    by (auto simp: bf1_def bit_set_self)
  have ok1: "bf_ok bf1" using sh1 Cons.prems(1) by (rule same_shape_ok)
  from Cons.IH [OF ok1] Cons.prems(2) obtain bf' where
    s: "set_bits bf1 h1 h2 idxs = Some bf'" and sh: "same_shape bf1 bf'"
    and hs: "\<forall>i \<in> set idxs. hits bf' h1 h2 i"
    by auto
  have "set_bits bf h1 h2 (i # idxs) = Some bf'" using p s by (simp add: bf1_def)
  moreover have "same_shape bf bf'" using sh1 sh by (rule same_shape_trans)
  moreover have "hits bf' h1 h2 i" using sh hit1 by (rule same_shape_hits)
  ultimately show ?case using hs by auto
qed

lemma test_bits_hits:
  "\<forall>i \<in> set idxs. hits bf h1 h2 i \<Longrightarrow> test_bits bf h1 h2 idxs = Some True"
proof (induction idxs)
  case Nil
  then show ?case by simp
next
  case (Cons i idxs)
  then obtain b k where "probe bf h1 h2 i = Some (b, k)" "bit (bits bf ! b) k"
    by (auto simp: hits_def)
  then show ?case using Cons
    by (simp add: bit_iff_and_push_bit_not_eq_0)
qed

definition holds :: "BloomFilter \<Rightarrow> string \<Rightarrow> bool" where
  "holds bf key \<longleftrightarrow>
     (\<forall>i \<in> set [0 .. hashCount bf - 1].
        hits bf (ChecksumIEEE key) (ChecksumIEEE (appendReversed [] key @ ''salt'')) i)"

lemma holds_MightContain: "holds bf key \<Longrightarrow> MightContain bf key = Some True"
  by (simp add: holds_def MightContain_def Let_def test_bits_hits)

lemma same_shape_holds: "same_shape bf bf' \<Longrightarrow> holds bf key \<Longrightarrow> holds bf' key"
  unfolding holds_def using same_shape_hits [of bf bf']
  by (auto simp: same_shape_def)

lemma Add_props:
  assumes ok: "bf_ok bf"
  shows "\<exists>bf'. Add bf key = Some bf' \<and> bf_ok bf' \<and> holds bf' key
               \<and> (\<forall>key'. holds bf key' \<longrightarrow> holds bf' key')"
proof -
  let ?h1 = "ChecksumIEEE key" and ?h2 = "ChecksumIEEE (appendReversed [] key @ ''salt'')"
  have rng: "\<forall>i \<in> set [0 .. hashCount bf - 1]. 0 \<le> i \<and> i \<le> 9"
    using ok by (auto simp: bf_ok_def)
  from set_bits_props [OF ok rng, of ?h1 ?h2] obtain bf1 where
    s: "set_bits bf ?h1 ?h2 [0 .. hashCount bf - 1] = Some bf1" and sh: "same_shape bf bf1"
    and hs: "\<forall>i \<in> set [0 .. hashCount bf - 1]. hits bf1 ?h1 ?h2 i"
    by auto
  define bf2 where "bf2 = bf1\<lparr>count_bf := wrap64 (count_bf bf1 + 1)\<rparr>"
  have eq: "Add bf key = Some bf2" using s by (simp add: Add_def Let_def bf2_def)
  have ok1: "bf_ok bf1" using sh ok by (rule same_shape_ok)
  have ok2: "bf_ok bf2" using ok1 wrap64_range [of "count_bf bf1 + 1"]
    by (simp add: bf_ok_def bf2_def)
  have hc: "hashCount bf1 = hashCount bf" using sh by (simp add: same_shape_def)
  have h1: "holds bf1 key" using hs by (simp add: holds_def hc)
  have pc: "\<And>a b i. probe bf2 a b i = probe bf1 a b i"
    by (rule probe_cong) (simp_all add: bf2_def)
  have same: "bits bf2 = bits bf1" "hashCount bf2 = hashCount bf1"
    by (simp_all add: bf2_def)
  have step: "\<And>k. holds bf1 k \<Longrightarrow> holds bf2 k"
    by (simp add: holds_def hits_def pc same)
  have "\<forall>key'. holds bf key' \<longrightarrow> holds bf2 key'"
    using same_shape_holds [OF sh] step by blast
  then show ?thesis using eq ok2 h1 step by blast
qed

lemma add_all_props:
  "bf_ok bf \<Longrightarrow>
   \<exists>bf'. add_all bf keys = Some bf' \<and> bf_ok bf' \<and> (\<forall>k \<in> set keys. holds bf' k)
         \<and> (\<forall>k. holds bf k \<longrightarrow> holds bf' k)"
proof (induction keys arbitrary: bf)
  case Nil
  then show ?case by simp
next
  case (Cons key keys)
  from Add_props [OF Cons.prems, of key] obtain bf1 where
    a: "Add bf key = Some bf1" and ok1: "bf_ok bf1" and h: "holds bf1 key"
    and m: "\<forall>key'. holds bf key' \<longrightarrow> holds bf1 key'"
    by blast
  from Cons.IH [OF ok1] obtain bf' where
    r: "add_all bf1 keys = Some bf'" and ok': "bf_ok bf'"
    and hs: "\<forall>k \<in> set keys. holds bf' k" and m': "\<forall>k. holds bf1 k \<longrightarrow> holds bf' k"
    by blast
  have "add_all bf (key # keys) = Some bf'" using a r by simp
  then show ?case using ok' hs m m' h by auto
qed


lemma wrap64_over: "2 ^ 63 \<le> x \<Longrightarrow> x < 2 ^ 64 \<Longrightarrow> wrap64 x = x - 2 ^ 64"
proof -
  assume a: "2 ^ 63 \<le> x" "x < 2 ^ 64"
  define y where "y = x + 2 ^ 63 - 2 ^ 64"
  have y: "0 \<le> y" "y < 2 ^ 64" using a by (simp_all add: y_def)
  have "x + 2 ^ 63 = y + 2 ^ 64" by (simp add: y_def)
  then have "(x + 2 ^ 63) mod 2 ^ 64 = (y + 2 ^ 64) mod 2 ^ 64" by (rule arg_cong)
  also have "\<dots> = y mod 2 ^ 64" by (rule mod_add_self2)
  also have "\<dots> = y" using y by (rule mod_pos_pos_trivial)
  finally show ?thesis by (simp add: wrap64_def y_def)
qed

lemma NewBloomFilter_ok:
  assumes "NewBloomFilter m0 k0 = Some bf"
  shows "bf_ok bf"
proof -
  define m1 where "m1 = (if sint m0 < 1024 then 1024 else sint m0)"
  define a where "a = wrap64 (m1 + 7)"
  define m where "m = wrap64 (go_quot a 8 * 8)"
  define k where "k = (let k1 = (if sint k0 < 1 then 1 else sint k0) in if 10 < k1 then 10 else k1)"
  have sm: "sint m0 < 2 ^ 63" using sint_lt [of m0] by simp
  have m1: "1024 \<le> m1" "m1 < 2 ^ 63" using sm by (auto simp: m1_def)
  have k: "1 \<le> k" "k \<le> 10" by (auto simp: k_def Let_def)
  from assms have q: "\<not> go_quot m 8 < 0"
    and bf: "bf = \<lparr>bits = replicate (nat (go_quot m 8)) 0, size_bf = m, hashCount = k,
                   count_bf = 0\<rparr>"
    by (auto simp: NewBloomFilter_def Let_def m1_def a_def m_def k_def split: if_splits)
  have a_eq: "a = m1 + 7"
  proof (cases "m1 + 7 < 2 ^ 63")
    case True
    then show ?thesis using m1 by (simp add: a_def wrap64_id)
  next
    case False
    then have "a = m1 + 7 - 2 ^ 64" using m1 by (simp add: a_def wrap64_over)
    then have an: "a \<le> - 8" "- (2 ^ 63) \<le> a" using m1 False by simp_all
    define d where "d = \<bar>a\<bar> div 8"
    have d: "1 \<le> d" "d * 8 \<le> - a" using an by (simp_all add: d_def)
    have "go_quot a 8 = - d" using an by (simp add: go_quot_def d_def)
    moreover have "wrap64 (- d * 8) = - d * 8" using d an by (intro wrap64_id) simp_all
    ultimately have "m = - d * 8" by (simp add: m_def)
    then have "m < 0" "\<bar>m\<bar> div 8 = d" using d by simp_all
    then have "go_quot m 8 < 0" using d by (simp add: go_quot_def)
    with q show ?thesis by simp
  qed
  have pos: "0 \<le> a" using a_eq m1 by simp
  have ar: "a < 2 ^ 63" using wrap64_range [of "m1 + 7"] by (simp add: a_def)
  have gq: "go_quot a 8 = a div 8" using pos by (simp add: go_quot_nonneg)
  have le: "a div 8 * 8 \<le> a" by simp
  have d0: "0 \<le> a div 8" using pos by simp
  have "wrap64 (a div 8 * 8) = a div 8 * 8" using le ar d0 by (intro wrap64_id) simp_all
  then have m_eq: "m = a div 8 * 8" by (simp add: m_def gq)
  have "128 \<le> a div 8" using a_eq m1 by simp
  then have mpos: "0 < m" by (simp add: m_eq)
  have mlt: "m < 2 ^ 63" using m_eq ar le by simp
  have gm: "go_quot m 8 = a div 8" using mpos by (simp add: go_quot_nonneg m_eq)
  have gm': "go_quot (a div 8 * 8) 8 = a div 8" using gm by (simp add: m_eq)
  have len: "int (length (bits bf)) * 8 = m" using d0 by (simp add: bf m_eq gm')
  show ?thesis using mpos mlt len k by (simp add: bf_ok_def bf)
qed

lemma length_be_words: "length (be_words n x) = n"
  by (induction n arbitrary: x) auto

lemma be_words_value_append: "be_words_value (xs @ [c]) = be_words_value xs * 256 + unat c"
  by (simp add: be_words_value_def)

lemma be_words_value_be_words: "be_words_value (be_words n x) = x mod 256 ^ n"
proof (induction n arbitrary: x)
  case 0
  then show ?case by (simp add: be_words_value_def)
next
  case (Suc n)
  have "unat (of_nat (x mod 256) :: 8 word) = x mod 256"
    by (simp add: unat_of_nat)
  then have "be_words_value (be_words (Suc n) x) = (x div 256) mod 256 ^ n * 256 + x mod 256"
    by (simp add: be_words_value_append Suc)
  also have "\<dots> = x mod 256 ^ Suc n"
    by (simp add: mod_mult2_eq)
  finally show ?case .
qed

lemma int64_roundtrip:
  assumes "- (2 ^ 63) \<le> x" "x < 2 ^ 63"
  shows "wrap64 (int (be_words_value (be_words 8 (uint64_of_int x)))) = x"
proof -
  have "uint64_of_int x < 2 ^ 64"
    unfolding uint64_of_int_def using pos_mod_bound [of "2 ^ 64" x] by (simp add: nat_less_iff)
  then have "be_words_value (be_words 8 (uint64_of_int x)) = uint64_of_int x"
    by (simp add: be_words_value_be_words)
  moreover have "wrap64 (int (uint64_of_int x)) = x"
    using assms by (simp add: uint64_of_int_def wrap64_def mod_add_left_eq)
  ultimately show ?thesis by simp
qed

lemma Deserialize_Serialize: "bf_ok bf \<Longrightarrow> DeserializeBloom (Serialize bf) = Some bf"
  by (simp add: DeserializeBloom_def Serialize_def length_be_words int64_roundtrip bf_ok_def)

definition sample_bloom :: BloomFilter where
  "sample_bloom = \<lparr>bits = replicate 250 0, size_bf = 2000, hashCount = 7, count_bf = 0\<rparr>"

text \<open>
  Claim C4. For a filter made by \<open>NewBloomFilter\<close> and any sequence of keys added to it
  during a build, no \<open>Add\<close> panics, and \<open>MightContain\<close> answers true for every added key,
  on the filter in memory and on the filter read back by \<open>DeserializeBloom\<close> from the bytes
  of \<open>Serialize\<close> (the bytes that \<open>LoadBloomFilterMmap\<close> maps).
\<close>

theorem bloom_no_false_negatives:
  assumes new: "NewBloomFilter m0 k0 = Some bf0" and key: "k \<in> set keys"
  shows "\<exists>bf. add_all bf0 keys = Some bf \<and> MightContain bf k = Some True
              \<and> (\<exists>bf'. DeserializeBloom (Serialize bf) = Some bf'
                       \<and> MightContain bf' k = Some True)"
proof -
  have ok0: "bf_ok bf0" using new by (rule NewBloomFilter_ok)
  from add_all_props [OF ok0, of keys] obtain bf where
    a: "add_all bf0 keys = Some bf" and ok: "bf_ok bf" and h: "\<forall>k \<in> set keys. holds bf k"
    by blast
  have "MightContain bf k = Some True" using h key by (simp add: holds_MightContain)
  then show ?thesis using a Deserialize_Serialize [OF ok] by simp
qed

theorem bloom_no_false_negatives_witness:
  "\<exists>bf. add_all sample_bloom [''Eng'', ''Sales''] = Some bf \<and> MightContain bf ''Eng'' = Some True
        \<and> (\<exists>bf'. DeserializeBloom (Serialize bf) = Some bf'
                 \<and> MightContain bf' ''Eng'' = Some True)"
proof -
  have a: "wrap64 2007 = 2007" "wrap64 2000 = 2000" by (simp_all add: wrap64_def)
  have b: "go_quot 2007 8 = 250" "go_quot 2000 8 = 250" by (simp_all add: go_quot_def)
  have "NewBloomFilter 2000 7 = Some sample_bloom"
    by (simp add: NewBloomFilter_def sample_bloom_def Let_def a b)
  then show ?thesis
    by (rule bloom_no_false_negatives) simp
qed

section \<open>CSV scanner\<close>

definition DQ :: char where
  "DQ = CHR 0x22"

definition NL :: char where
  "NL = CHR 0x0A"

definition CR :: char where
  "CR = CHR 0x0D"

text \<open>The Go slice \<open>xs[a:b]\<close>, and \<open>bytes.IndexByte\<close>.\<close>

definition slice :: "'a list \<Rightarrow> nat \<Rightarrow> nat \<Rightarrow> 'a list" where
  "slice xs a b = take (b - a) (drop a xs)"

fun IndexByte :: "string \<Rightarrow> char \<Rightarrow> nat option" where
  "IndexByte [] c = None"
| "IndexByte (x # xs) c = (if x = c then Some 0 else map_option Suc (IndexByte xs c))"

text \<open>
  Stripping one pair of enclosing quotes, as both the scanner and \<open>extractCols\<close> do on
  every field: \<open>if len(v) >= 2 && v[0] == '"' && v[len(v)-1] == '"' { v = v[1 : len(v)-1] }\<close>.
\<close>

definition unquote :: "string \<Rightarrow> string" where
  "unquote v =
     (if 2 \<le> length v \<and> v ! 0 = DQ \<and> v ! (length v - 1) = DQ
      then slice v 1 (length v - 1) else v)"

text \<open>Dropping one trailing carriage return from a line.\<close>

definition trim_cr :: "string \<Rightarrow> string" where
  "trim_cr l = (if l \<noteq> [] \<and> last l = CR then butlast l else l)"

text \<open>
  \<open>findSafeRecordBoundary\<close>: from the first newline at or after \<open>hint\<close>, the position after
  a newline whose following line holds an even number of quotes.
\<close>

function safe_loop :: "string \<Rightarrow> nat \<Rightarrow> nat" where
  "safe_loop data currentNL =
     (if length data \<le> currentNL + 1 then length data
      else case IndexByte (drop (currentNL + 1) data) NL of
             None \<Rightarrow> currentNL + 1
           | Some nextNL \<Rightarrow>
               let nextPos = currentNL + 1 + nextNL;
                   quotes = length (filter (\<lambda>c. c = DQ) (slice data (currentNL + 1) nextPos))
               in if quotes mod 2 = 0 then currentNL + 1 else safe_loop data nextPos)"
  by pat_completeness auto
termination
  by (relation "measure (\<lambda>(data, currentNL). length data - currentNL)") auto

declare safe_loop.simps [simp del]

definition findSafeRecordBoundary :: "string \<Rightarrow> nat \<Rightarrow> nat" where
  "findSafeRecordBoundary data hint =
     (if length data \<le> hint then length data
      else case IndexByte (drop hint data) NL of
             None \<Rightarrow> length data
           | Some nextNL \<Rightarrow> safe_loop data (hint + nextNL))"

text \<open>
  The classifier (\<open>Scan\<close> for a comma, \<open>ScanWithSeparator\<close> otherwise) marks byte \<open>i\<close> of the
  chunk in the quote bitmap when it is \<open>"\<close>, else in the separator bitmap when it is the
  separator, else in the newline bitmap when it is \<open>\n\<close>: a newline that is the separator is
  not marked as a newline. The loops over the bitmap words with \<open>TrailingZeros64\<close> visit the set
  bits of the quote and newline bitmaps in increasing position; the walks below visit the
  bytes of the chunk in order and act on those bytes.
\<close>

definition isNewline :: "char \<Rightarrow> char \<Rightarrow> bool" where
  "isNewline sep c \<longleftrightarrow> c \<noteq> DQ \<and> c \<noteq> sep \<and> c = NL"

fun count_walk :: "char \<Rightarrow> string \<Rightarrow> bool \<Rightarrow> int \<Rightarrow> bool \<times> int" where
  "count_walk sep [] inQuote n = (inQuote, n)"
| "count_walk sep (c # cs) inQuote n =
     (if c = DQ then count_walk sep cs (\<not> inQuote) n
      else if isNewline sep c \<and> \<not> inQuote then count_walk sep cs inQuote (n + 1)
      else count_walk sep cs inQuote n)"

definition countChunkLines :: "string \<Rightarrow> char \<Rightarrow> nat \<Rightarrow> nat \<Rightarrow> int" where
  "countChunkLines data sep start end =
     (if length data \<le> start \<or> end \<le> start then 0
      else
        let chunkData = slice data start end
        in if chunkData = [] then 0
           else case count_walk sep chunkData False 0 of
                  (inQuote, n) \<Rightarrow> if last chunkData \<noteq> NL \<and> \<not> inQuote then n + 1 else n)"

text \<open>
  \<open>parseLineSimd\<close>, the field loop: \<open>ncols\<close> is \<open>maxCol + 1\<close>, the length of
  \<open>currentRowValues\<close>, whose entries are \<open>nil\<close> (\<open>None\<close>) until a field is stored.
\<close>

fun parse_fields ::
  "string \<Rightarrow> char \<Rightarrow> nat \<Rightarrow> string \<Rightarrow> nat \<Rightarrow> nat \<Rightarrow> nat \<Rightarrow> bool \<Rightarrow> string option list
   \<Rightarrow> nat \<times> nat \<times> string option list" where
  "parse_fields line sep ncols [] i colIdx fieldStart inQuote vals = (colIdx, fieldStart, vals)"
| "parse_fields line sep ncols (c # cs) i colIdx fieldStart inQuote vals =
     (if \<not> colIdx < ncols then (colIdx, fieldStart, vals)
      else if c = DQ then
        parse_fields line sep ncols cs (i + 1) colIdx fieldStart (\<not> inQuote) vals
      else if c = sep \<and> \<not> inQuote then
        parse_fields line sep ncols cs (i + 1) (colIdx + 1) (i + 1) inQuote
          (vals[colIdx := Some (unquote (slice line fieldStart i))])
      else parse_fields line sep ncols cs (i + 1) colIdx fieldStart inQuote vals)"

definition row_values :: "string \<Rightarrow> char \<Rightarrow> nat \<Rightarrow> string option list" where
  "row_values line sep ncols =
     (case parse_fields line sep ncols line 0 0 0 False (replicate ncols None) of
        (colIdx, fieldStart, vals) \<Rightarrow>
          if colIdx < ncols \<and> fieldStart \<le> length line
          then vals[colIdx := Some (unquote (drop fieldStart line))]
          else vals)"

text \<open>
  The key of one index definition: the column's bytes for a single column, the bracketed
  list of quoted values for several; a column that the row lacks contributes nothing.
\<close>

definition column_value :: "string option list \<Rightarrow> nat \<Rightarrow> string" where
  "column_value vals idx =
     (if idx < length vals then (case vals ! idx of None \<Rightarrow> [] | Some v \<Rightarrow> v) else [])"

fun composite_body :: "string option list \<Rightarrow> nat list \<Rightarrow> bool \<Rightarrow> string" where
  "composite_body vals [] first = []"
| "composite_body vals (idx # rest) first =
     (if first then [] else '','') @ [DQ] @ column_value vals idx @ [DQ]
       @ composite_body vals rest False"

definition index_key :: "string option list \<Rightarrow> nat list \<Rightarrow> string" where
  "index_key vals indices =
     (if length indices = 1 then column_value vals (hd indices)
      else ''['' @ composite_body vals indices True @ '']'')"

text \<open>One call of the scan handler: worker, keys (one per index definition), offset, line.\<close>

record scan_call =
  workerID :: nat
  keys :: "string list"
  row_offset :: int
  row_line :: int

definition parseLineSimd ::
  "string \<Rightarrow> char \<Rightarrow> int \<Rightarrow> nat \<Rightarrow> nat list list \<Rightarrow> nat \<Rightarrow> int \<Rightarrow> scan_call" where
  "parseLineSimd line sep row_off wid indexDefs ncols lineNum =
     \<lparr>workerID = wid,
      keys = map (index_key (row_values line sep ncols)) indexDefs,
      row_offset = row_off,
      row_line = lineNum\<rparr>"

definition max_col :: "nat list list \<Rightarrow> int" where
  "max_col indexDefs = fold (\<lambda>idx m. if m < int idx then int idx else m) (concat indexDefs) (- 1)"

text \<open>
  \<open>processChunk\<close>, the main loop over the chunk: \<open>bytePos\<close> is the position of the byte
  \<open>c\<close> in the chunk, \<open>out\<close> the handler calls made so far.
\<close>

fun chunk_walk ::
  "string \<Rightarrow> char \<Rightarrow> nat \<Rightarrow> nat \<Rightarrow> nat list list \<Rightarrow> nat \<Rightarrow> string \<Rightarrow> nat \<Rightarrow> nat \<Rightarrow> bool \<Rightarrow> int
   \<Rightarrow> scan_call list \<Rightarrow> nat \<times> bool \<times> int \<times> scan_call list" where
  "chunk_walk chunkData sep start wid indexDefs ncols [] bytePos lineStart inQuote currentLine out =
     (lineStart, inQuote, currentLine, out)"
| "chunk_walk chunkData sep start wid indexDefs ncols (c # cs) bytePos lineStart inQuote
     currentLine out =
     (if c = DQ then
        chunk_walk chunkData sep start wid indexDefs ncols cs (bytePos + 1) lineStart
          (\<not> inQuote) currentLine out
      else if isNewline sep c \<and> \<not> inQuote then
        let lineBytes = trim_cr (slice chunkData lineStart bytePos)
        in if lineBytes \<noteq> [] then
             chunk_walk chunkData sep start wid indexDefs ncols cs (bytePos + 1) (bytePos + 1)
               inQuote (currentLine + 1)
               (out @ [parseLineSimd lineBytes sep (int (start + lineStart)) wid indexDefs ncols
                         currentLine])
           else
             chunk_walk chunkData sep start wid indexDefs ncols cs (bytePos + 1) (bytePos + 1)
               inQuote currentLine out
      else
        chunk_walk chunkData sep start wid indexDefs ncols cs (bytePos + 1) lineStart inQuote
          currentLine out)"

definition processChunk ::
  "string \<Rightarrow> char \<Rightarrow> nat \<Rightarrow> nat \<Rightarrow> nat \<Rightarrow> int \<Rightarrow> nat list list \<Rightarrow> scan_call list" where
  "processChunk data sep start end0 wid startLine indexDefs =
     (if length data \<le> start then []
      else
        let end = (if length data < end0 then length data else end0)
        in if end \<le> start then []
           else
             let chunkData = slice data start end;
                 ncols = nat (max_col indexDefs + 1)
             in case chunk_walk chunkData sep start wid indexDefs ncols chunkData 0 0 False
                       startLine [] of
                  (lineStart, inQuote, currentLine, out) \<Rightarrow>
                    if lineStart < length chunkData \<and> \<not> inQuote then
                      let lineBytes = trim_cr (drop lineStart chunkData)
                      in if lineBytes \<noteq> [] then
                           out @ [parseLineSimd lineBytes sep (int (start + lineStart)) wid
                                    indexDefs ncols currentLine]
                         else out
                    else out)"

text \<open>
  \<open>Scan\<close> with \<open>W\<close> workers (at least one). The chunk boundaries, the pre-pass that counts
  the lines of every chunk, the prefix sums from line 2, and the main pass. The workers
  run concurrently; the calls are listed worker by worker, each worker's in its own order.
\<close>

definition boundaries :: "string \<Rightarrow> nat \<Rightarrow> nat \<Rightarrow> nat list" where
  "boundaries data startIdx W =
     (let dataSize = length data;
          chunkSize = (dataSize - startIdx) div W
      in [startIdx]
         @ map (\<lambda>i. let hint = startIdx + i * chunkSize
                     in if hint < dataSize then findSafeRecordBoundary data hint else dataSize)
             [1 ..< W]
         @ [dataSize])"

fun start_lines :: "int \<Rightarrow> int list \<Rightarrow> int list" where
  "start_lines currentLine [] = []"
| "start_lines currentLine (n # ns) = currentLine # start_lines (currentLine + n) ns"

definition Scan :: "string \<Rightarrow> char \<Rightarrow> nat \<Rightarrow> nat list list \<Rightarrow> scan_call list" where
  "Scan data sep W indexDefs =
     (case IndexByte data NL of
        None \<Rightarrow> []
      | Some idx \<Rightarrow>
          let startIdx = idx + 1
          in if length data \<le> startIdx then []
             else
               let bs = boundaries data startIdx W;
                   chunkLines = map (\<lambda>i. if bs ! i < bs ! (i + 1)
                                           then countChunkLines data sep (bs ! i) (bs ! (i + 1))
                                           else 0)
                                  [0 ..< W];
                   startLines = start_lines 2 chunkLines
               in concat (map (\<lambda>i. if bs ! i < bs ! (i + 1)
                                    then processChunk data sep (bs ! i) (bs ! (i + 1)) i
                                           (startLines ! i) indexDefs
                                    else [])
                            [0 ..< W]))"

section \<open>Searching an index\<close>

text \<open>The three-way \<open>bytes.Compare\<close>, and \<open>compareRecordKey\<close>, which trims the key first.\<close>

definition bytes_Compare :: "string \<Rightarrow> string \<Rightarrow> int" where
  "bytes_Compare a b = (if a < b then - 1 else if a = b then 0 else 1)"

definition compareRecordKey :: "string \<Rightarrow> string \<Rightarrow> int" where
  "compareRecordKey key searchKey = bytes_Compare (TrimRight0 key) searchKey"

text \<open>
  \<open>findStartBlock\<close> (the same code in \<open>DiskIndex\<close> and in \<open>QueryEngine\<close>): the binary
  search for the last block whose start key is at most the key, then the walk back over
  blocks with that same start key.
\<close>

function bsearch :: "BlockMeta list \<Rightarrow> string \<Rightarrow> int \<Rightarrow> int \<Rightarrow> int \<Rightarrow> int" where
  "bsearch blocks key left right result =
     (if left \<le> right then
        let mid = (left + right) div 2
        in if StartKey (blocks ! nat mid) \<le> key then bsearch blocks key (mid + 1) right mid
           else bsearch blocks key left (mid - 1) result
      else result)"
  by pat_completeness auto
termination
  by (relation "measure (\<lambda>(blocks, key, left, right, result). nat (right - left + 1))") auto

declare bsearch.simps [simp del]

fun walk_back :: "BlockMeta list \<Rightarrow> string \<Rightarrow> nat \<Rightarrow> nat" where
  "walk_back blocks key 0 = 0"
| "walk_back blocks key (Suc n) =
     (if StartKey (blocks ! n) = key then walk_back blocks key n else Suc n)"

definition findStartBlock :: "BlockMeta list \<Rightarrow> string \<Rightarrow> int" where
  "findStartBlock blocks key =
     (let result = bsearch blocks key 0 (int (length blocks) - 1) (- 1)
      in if result = - 1 then - 1
         else if StartKey (blocks ! nat result) = key
              then int (walk_back blocks key (nat result))
              else result)"

record DiskIndex =
  reader :: BlockReader
  bloom :: "BloomFilter option"

record diskIterator =
  searchKey :: string
  scanMode :: bool
  currentBlock :: nat
  records :: "IndexRecord list"
  recordIndex :: nat
  totalBlocks :: nat
  currentRecord :: IndexRecord
  err :: "error option"
  done_it :: bool

definition zero_record :: IndexRecord where
  "zero_record = \<lparr>Key = replicate 64 NUL, Offset = 0, Line = 0\<rparr>"

text \<open>
  \<open>diskIterator.Next\<close>: the body of its \<open>for\<close> loop; \<open>lz4d\<close> is the decompressor that
  \<open>ReadBlock\<close> uses. An index into the directory beyond its end is a panic.
\<close>

function Next_loop ::
  "(string \<Rightarrow> string option) \<Rightarrow> DiskIndex \<Rightarrow> diskIterator \<Rightarrow> bool \<times> diskIterator" where
  "Next_loop lz4d idx it =
     (if length (records it) \<le> recordIndex it then
        (if totalBlocks it \<le> currentBlock it then (False, it\<lparr>done_it := True\<rparr>)
         else if length (Footer (reader idx)) \<le> currentBlock it
         then (False, it\<lparr>err := Some Panic\<rparr>)
         else
           let blockMeta = Footer (reader idx) ! currentBlock it
           in if \<not> scanMode it \<and> searchKey it < StartKey blockMeta
              then (False, it\<lparr>done_it := True\<rparr>)
              else case ReadBlock lz4d (reader idx) blockMeta of
                     Inl e \<Rightarrow> (False, it\<lparr>err := Some e\<rparr>)
                   | Inr recs \<Rightarrow>
                       Next_loop lz4d idx
                         (it\<lparr>records := recs, recordIndex := 0,
                             currentBlock := currentBlock it + 1\<rparr>))
      else
        let rec = records it ! recordIndex it;
            it1 = it\<lparr>recordIndex := recordIndex it + 1\<rparr>
        in if scanMode it then (True, it1\<lparr>currentRecord := rec\<rparr>)
           else
             let cmp = compareRecordKey (Key rec) (searchKey it)
             in if cmp < 0 then Next_loop lz4d idx it1
                else if cmp = 0 then (True, it1\<lparr>currentRecord := rec\<rparr>)
                else (False, it1\<lparr>done_it := True\<rparr>))"
  by pat_completeness auto
termination
  by (relation "measures [\<lambda>(lz4d, idx, it). totalBlocks it - currentBlock it,
                          \<lambda>(lz4d, idx, it). length (records it) - recordIndex it]") auto

declare Next_loop.simps [simp del]

definition Next :: "(string \<Rightarrow> string option) \<Rightarrow> DiskIndex \<Rightarrow> diskIterator \<Rightarrow> bool \<times> diskIterator" where
  "Next lz4d idx it =
     (if done_it it \<or> err it \<noteq> None then (False, it) else Next_loop lz4d idx it)"

definition it_less :: "diskIterator \<Rightarrow> diskIterator \<Rightarrow> bool" where
  "it_less a b \<longleftrightarrow>
     totalBlocks a = totalBlocks b \<and>
     (totalBlocks a - currentBlock a < totalBlocks b - currentBlock b
      \<or> totalBlocks a - currentBlock a = totalBlocks b - currentBlock b
        \<and> length (records a) - recordIndex a < length (records b) - recordIndex b)"

lemma it_less_trans: "it_less a b \<Longrightarrow> it_less b c \<Longrightarrow> it_less a c"
  unfolding it_less_def by linarith

lemma it_less_load:
  "currentBlock it < totalBlocks it \<Longrightarrow>
   it_less (it\<lparr>records := recs, recordIndex := 0, currentBlock := currentBlock it + 1\<rparr>) it"
  unfolding it_less_def by simp linarith

lemma it_less_advance:
  "recordIndex it < length (records it) \<Longrightarrow>
   it_less (it\<lparr>recordIndex := recordIndex it + 1\<rparr>) it"
  unfolding it_less_def by simp

lemma it_less_current: "it_less a b \<Longrightarrow> it_less (a\<lparr>currentRecord := rc\<rparr>) b"
  unfolding it_less_def by auto

lemma Next_loop_progress:
  "Next_loop lz4d idx it = (True, it') \<Longrightarrow> it_less it' it"
proof (induction lz4d idx it rule: Next_loop.induct)
  case (1 lz4d idx it)
  show ?case
  proof (cases "length (records it) \<le> recordIndex it")
    case True
    note empty = True
    show ?thesis
    proof (cases "totalBlocks it \<le> currentBlock it \<or> length (Footer (reader idx)) \<le> currentBlock it
                  \<or> (\<not> scanMode it \<and> searchKey it < StartKey (Footer (reader idx) ! currentBlock it))")
      case True
      then show ?thesis using "1.prems" empty
        by (subst (asm) Next_loop.simps) (auto simp: Let_def split: if_splits)
    next
      case False
      then obtain recs where
        rb: "ReadBlock lz4d (reader idx) (Footer (reader idx) ! currentBlock it) = Inr recs"
        using "1.prems" empty
        by (subst (asm) Next_loop.simps) (auto simp: Let_def split: if_splits sum.splits)
      let ?it1 = "it\<lparr>records := recs, recordIndex := 0, currentBlock := currentBlock it + 1\<rparr>"
      have nx: "Next_loop lz4d idx ?it1 = (True, it')"
        using "1.prems" empty False rb
        by (subst (asm) Next_loop.simps) (auto simp: Let_def split: if_splits)
      have ih: "it_less it' ?it1"
        using "1.IH"(1) [OF empty _ _ refl _ rb nx] False by simp
      have "it_less ?it1 it" using False by (intro it_less_load) simp
      with ih show ?thesis by (rule it_less_trans)
    qed
  next
    case False
    note nonempty = False
    let ?rec = "records it ! recordIndex it"
    let ?it1 = "it\<lparr>recordIndex := recordIndex it + 1\<rparr>"
    have adv: "it_less ?it1 it" using nonempty by (intro it_less_advance) simp
    show ?thesis
    proof (cases "\<not> scanMode it \<and> compareRecordKey (Key ?rec) (searchKey it) < 0")
      case True
      have nx: "Next_loop lz4d idx ?it1 = (True, it')"
        using "1.prems" nonempty True
        by (subst (asm) Next_loop.simps) (auto simp: Let_def split: if_splits)
      have "it_less it' ?it1"
        using "1.IH"(2) [OF nonempty refl refl _ refl _ nx] True by simp
      then show ?thesis using adv by (rule it_less_trans)
    next
      case False
      then have "it' = ?it1\<lparr>currentRecord := ?rec\<rparr>" using "1.prems" nonempty
        by (subst (asm) Next_loop.simps) (auto simp: Let_def split: if_splits)
      then show ?thesis using adv by (simp add: it_less_current)
    qed
  qed
qed

lemma Next_progress: "(True, it') = Next lz4d idx it \<Longrightarrow> it_less it' it"
  using Next_loop_progress [of lz4d idx it it'] by (auto simp: Next_def split: if_splits)

text \<open>The consumer's loop \<open>for iter.Next() { rec := iter.Record(); ... }\<close>, collecting the records.\<close>

function drain ::
  "(string \<Rightarrow> string option) \<Rightarrow> DiskIndex \<Rightarrow> diskIterator \<Rightarrow> IndexRecord list
   \<Rightarrow> IndexRecord list \<times> diskIterator" where
  "drain lz4d idx it acc =
     (case Next lz4d idx it of
        (False, it1) \<Rightarrow> (acc, it1)
      | (True, it1) \<Rightarrow> drain lz4d idx it1 (acc @ [currentRecord it1]))"
  by pat_completeness auto
termination
  apply (relation "measures [\<lambda>(lz4d, idx, it, acc). totalBlocks it - currentBlock it,
                           \<lambda>(lz4d, idx, it, acc). length (records it) - recordIndex it]")
   apply simp
  apply (auto dest!: Next_progress simp: it_less_def)
  done

declare drain.simps [simp del]

text \<open>
  \<open>DiskIndex.Search\<close>: the bloom pre-check, the start block, and the iterator; \<open>None\<close> is
  the empty iterator. A panic of the bloom probe is the error \<open>Panic\<close>.
\<close>

definition Search :: "DiskIndex \<Rightarrow> string \<Rightarrow> error + diskIterator option" where
  "Search idx key =
     (case (case bloom idx of None \<Rightarrow> Some True | Some bf \<Rightarrow> MightContain bf key) of
        None \<Rightarrow> Inl Panic
      | Some False \<Rightarrow> Inr None
      | Some True \<Rightarrow>
          let startBlockIdx = findStartBlock (Footer (reader idx)) key
          in if startBlockIdx = - 1 then Inr None
             else Inr (Some \<lparr>searchKey = key, scanMode = False,
                              currentBlock = nat startBlockIdx, records = [], recordIndex = 0,
                              totalBlocks = length (Footer (reader idx)),
                              currentRecord = zero_record, err = None, done_it = False\<rparr>))"

subsection \<open>A record that the search misses\<close>

text \<open>
  An index of 821 records as the block writer lays it out: 819 rows with key \<open>A\<close> and two
  rows with key \<open>K\<close>, in sorted order. A block is flushed when it holds 820 records
  (\<open>820 * 80 \<ge> 65536\<close>), so the first \<open>K\<close> record closes block 0 and the second one is
  alone in block 1.
\<close>

lemma WriteRecord_buffering:
  "currentSize bw + 80 * length recs < 65536 \<Longrightarrow>
   foldl (WriteRecord lz4c) bw recs
     = bw\<lparr>buffer := buffer bw @ recs, currentSize := currentSize bw + 80 * length recs\<rparr>"
proof (induction recs arbitrary: bw)
  case Nil
  then show ?case by simp
next
  case (Cons a recs)
  have "WriteRecord lz4c bw a = bw\<lparr>buffer := buffer bw @ [a], currentSize := currentSize bw + 80\<rparr>"
    using Cons.prems by (simp add: WriteRecord_def Let_def BlockTargetSize_def)
  then show ?case using Cons.prems Cons.IH [of "WriteRecord lz4c bw a"] by simp
qed

definition row_rec :: "string \<Rightarrow> nat \<Rightarrow> IndexRecord" where
  "row_rec k i = \<lparr>Key = copy64 k, Offset = of_nat (2 + 2 * i), Line = of_nat (2 + i)\<rparr>"

definition c2_block0 :: "IndexRecord list" where
  "c2_block0 = map (row_rec ''A'') [0 ..< 819] @ [row_rec ''K'' 819]"

definition c2_records :: "IndexRecord list" where
  "c2_records = c2_block0 @ [row_rec ''K'' 820]"

definition c2_file :: cidx_file where
  "c2_file = Close id (foldl (WriteRecord id) NewBlockWriter c2_records)"

definition c2_meta0 :: BlockMeta where
  "c2_meta0 = \<lparr>StartKey = ''A'', Offset_m = 4, Length_m = 65600, RecordCount = 820, IsDistinct = False\<rparr>"

definition c2_meta1 :: BlockMeta where
  "c2_meta1 = \<lparr>StartKey = ''K'', Offset_m = 65604, Length_m = 80, RecordCount = 1, IsDistinct = True\<rparr>"

lemma trim_A: "TrimRight0 (copy64 ''A'') = ''A''"
  by code_simp

lemma trim_K: "TrimRight0 (copy64 ''K'') = ''K''"
  by code_simp

lemma length_WriteBatchRecords: "length (WriteBatchRecords recs) = 80 * length recs"
  by (induction recs) (simp_all add: WriteBatchRecords_def length_encode_record)

lemma length_MagicCIDX: "length MagicCIDX = 4"
  by (simp add: MagicCIDX_def)

lemma Key_row_rec: "Key (row_rec k i) = copy64 k"
  by (simp add: row_rec_def)

lemma c2_block0_facts:
  "c2_block0 \<noteq> []" "length c2_block0 = 820" "Key (hd c2_block0) = copy64 ''A''"
  "\<not> (\<forall>rc \<in> set (tl c2_block0). Key (hd c2_block0) = Key rc)"
proof -
  have ne: "map (row_rec ''A'') [0 ..< 819] \<noteq> []" by simp
  show "c2_block0 \<noteq> []" by (simp add: c2_block0_def)
  show "length c2_block0 = 820" by (simp add: c2_block0_def)
  have "hd c2_block0 = hd (map (row_rec ''A'') [0 ..< 819])"
    unfolding c2_block0_def using ne by (rule hd_append2)
  also have "\<dots> = row_rec ''A'' (hd [0 ..< 819])" by (rule hd_map) simp
  finally show k: "Key (hd c2_block0) = copy64 ''A''" by (simp add: Key_row_rec)
  have "tl c2_block0 = tl (map (row_rec ''A'') [0 ..< 819]) @ [row_rec ''K'' 819]"
    unfolding c2_block0_def using ne by (rule tl_append2)
  then have "row_rec ''K'' 819 \<in> set (tl c2_block0)" by simp
  moreover have "copy64 ''A'' \<noteq> Key (row_rec ''K'' 819)"
    using trim_A trim_K by (auto simp: Key_row_rec)
  ultimately show "\<not> (\<forall>rc \<in> set (tl c2_block0). Key (hd c2_block0) = Key rc)"
    using k by metis
qed

lemma FlushBlock_nonempty:
  "buffer bw \<noteq> [] \<Longrightarrow>
   FlushBlock lz4c bw =
     bw\<lparr>sparseIndex := sparseIndex bw @
            [\<lparr>StartKey = TrimRight0 (Key (hd (buffer bw))), Offset_m = offset bw,
              Length_m = int (length (lz4c (WriteBatchRecords (buffer bw)))),
              RecordCount = int (length (buffer bw)),
              IsDistinct = (\<forall>rc \<in> set (tl (buffer bw)). Key (hd (buffer bw)) = Key rc)\<rparr>],
         w := w bw @ lz4c (WriteBatchRecords (buffer bw)),
         offset := offset bw + int (length (lz4c (WriteBatchRecords (buffer bw)))),
         buffer := [],
         currentSize := 0\<rparr>"
  by (simp add: FlushBlock_def Let_def)

lemma c2_file_eq:
  "c2_file = \<lparr>body = MagicCIDX @ WriteBatchRecords c2_block0 @ WriteBatchRecords [row_rec ''K'' 820],
              footer = Some [c2_meta0, c2_meta1]\<rparr>"
proof -
  let ?as = "map (row_rec ''A'') [0 ..< 819]"
  have 1: "foldl (WriteRecord id) NewBlockWriter ?as
        = NewBlockWriter\<lparr>buffer := ?as, currentSize := 65520\<rparr>"
    using WriteRecord_buffering [of NewBlockWriter ?as id] by (simp add: NewBlockWriter_def)
  define bw1 where "bw1 = NewBlockWriter\<lparr>buffer := c2_block0, currentSize := 65600\<rparr>"
  have b1: "buffer bw1 = c2_block0" "offset bw1 = 4" "w bw1 = MagicCIDX" "sparseIndex bw1 = []"
    by (simp_all add: bw1_def NewBlockWriter_def length_MagicCIDX)
  have "WriteRecord id (NewBlockWriter\<lparr>buffer := ?as, currentSize := 65520\<rparr>) (row_rec ''K'' 819)
        = FlushBlock id bw1"
    by (simp add: WriteRecord_def Let_def BlockTargetSize_def bw1_def c2_block0_def)
  also have "\<dots> = \<lparr>w = MagicCIDX @ WriteBatchRecords c2_block0, buffer = [], currentSize = 0,
           sparseIndex = [c2_meta0], offset = 65604\<rparr>"
    using c2_block0_facts
    by (simp add: FlushBlock_nonempty b1 bw1_def NewBlockWriter_def c2_meta0_def
        length_WriteBatchRecords trim_A length_MagicCIDX)
  finally have 2: "WriteRecord id (NewBlockWriter\<lparr>buffer := ?as, currentSize := 65520\<rparr>)
           (row_rec ''K'' 819)
        = \<lparr>w = MagicCIDX @ WriteBatchRecords c2_block0, buffer = [], currentSize = 0,
           sparseIndex = [c2_meta0], offset = 65604\<rparr>" .
  have 3: "foldl (WriteRecord id) NewBlockWriter c2_records
        = \<lparr>w = MagicCIDX @ WriteBatchRecords c2_block0, buffer = [row_rec ''K'' 820], currentSize = 80,
           sparseIndex = [c2_meta0], offset = 65604\<rparr>"
  proof -
    have r: "c2_records = ?as @ [row_rec ''K'' 819] @ [row_rec ''K'' 820]"
      by (simp add: c2_records_def c2_block0_def)
    have "foldl (WriteRecord id) NewBlockWriter c2_records
        = WriteRecord id \<lparr>w = MagicCIDX @ WriteBatchRecords c2_block0, buffer = [], currentSize = 0,
           sparseIndex = [c2_meta0], offset = 65604\<rparr> (row_rec ''K'' 820)"
      unfolding r foldl_append 1 by (simp add: 2)
    then show ?thesis by (simp add: WriteRecord_def Let_def BlockTargetSize_def)
  qed
  show ?thesis
    unfolding c2_file_def 3
    by (simp add: Close_def FlushBlock_nonempty c2_meta1_def length_WriteBatchRecords
        Key_row_rec trim_K)
qed

definition c2_reader :: BlockReader where
  "c2_reader = \<lparr>r = MagicCIDX @ WriteBatchRecords c2_block0 @ WriteBatchRecords [row_rec ''K'' 820],
                 Footer = [c2_meta0, c2_meta1]\<rparr>"

definition c2_index :: DiskIndex where
  "c2_index = \<lparr>reader = c2_reader, bloom = None\<rparr>"

lemma c2_NewBlockReader: "NewBlockReader c2_file = Inr c2_reader"
  by (simp add: c2_file_eq NewBlockReader_def c2_reader_def)

lemma length_Key_row_rec: "length (Key (row_rec k i)) = 64"
  by (simp add: Key_row_rec length_copy64)

lemma c2_ReadBlock1: "ReadBlock Some c2_reader c2_meta1 = Inr [row_rec ''K'' 820]"
proof -
  have "read_records (WriteBatchRecords [row_rec ''K'' 820]) [] = Inr ([] @ [row_rec ''K'' 820])"
    by (rule read_records_batch) (simp add: length_Key_row_rec)
  then show ?thesis
    using c2_block0_facts(2)
    by (simp add: ReadBlock_def c2_reader_def c2_meta1_def Let_def length_MagicCIDX
        length_WriteBatchRecords)
qed

lemma c2_ReadBlock0: "ReadBlock Some c2_reader c2_meta0 = Inr c2_block0"
proof -
  have "\<forall>rc \<in> set c2_block0. length (Key rc) = 64"
    by (auto simp: c2_block0_def length_Key_row_rec)
  then have "read_records (WriteBatchRecords c2_block0) [] = Inr ([] @ c2_block0)"
    by (rule read_records_batch)
  then show ?thesis
    using c2_block0_facts(2)
    by (simp add: ReadBlock_def c2_reader_def c2_meta0_def Let_def length_MagicCIDX
        length_WriteBatchRecords)
qed

lemma c2_findStartBlock: "findStartBlock [c2_meta0, c2_meta1] ''K'' = 1"
  by (simp add: findStartBlock_def bsearch.simps c2_meta0_def c2_meta1_def Let_def)

definition c2_it0 :: diskIterator where
  "c2_it0 = \<lparr>searchKey = ''K'', scanMode = False, currentBlock = 1, records = [], recordIndex = 0,
              totalBlocks = 2, currentRecord = zero_record, err = None, done_it = False\<rparr>"

lemma c2_Search: "Search c2_index ''K'' = Inr (Some c2_it0)"
  by (simp add: Search_def c2_index_def c2_reader_def c2_findStartBlock c2_it0_def)

lemma c2_cmp: "compareRecordKey (Key (row_rec ''K'' 820)) ''K'' = 0"
  by (simp add: compareRecordKey_def Key_row_rec trim_K bytes_Compare_def)

lemma Next_loop_load:
  "length (records it) \<le> recordIndex it \<Longrightarrow> currentBlock it < totalBlocks it \<Longrightarrow>
   currentBlock it < length (Footer (reader idx)) \<Longrightarrow>
   scanMode it \<or> \<not> searchKey it < StartKey (Footer (reader idx) ! currentBlock it) \<Longrightarrow>
   ReadBlock lz4d (reader idx) (Footer (reader idx) ! currentBlock it) = Inr recs \<Longrightarrow>
   Next_loop lz4d idx it
     = Next_loop lz4d idx
         (it\<lparr>records := recs, recordIndex := 0, currentBlock := currentBlock it + 1\<rparr>)"
  by (subst Next_loop.simps) (auto simp: Let_def)

lemma Next_loop_hit:
  "recordIndex it < length (records it) \<Longrightarrow> \<not> scanMode it \<Longrightarrow>
   compareRecordKey (Key (records it ! recordIndex it)) (searchKey it) = 0 \<Longrightarrow>
   Next_loop lz4d idx it
     = (True, it\<lparr>recordIndex := recordIndex it + 1,
                  currentRecord := records it ! recordIndex it\<rparr>)"
  by (subst Next_loop.simps) (simp add: Let_def)

lemma Next_loop_end:
  "length (records it) \<le> recordIndex it \<Longrightarrow> totalBlocks it \<le> currentBlock it \<Longrightarrow>
   Next_loop lz4d idx it = (False, it\<lparr>done_it := True\<rparr>)"
  by (subst Next_loop.simps) simp

lemma c2_Footer: "Footer c2_reader = [c2_meta0, c2_meta1]"
  by (simp add: c2_reader_def)

lemma c2_drain: "fst (drain Some c2_index c2_it0 []) = [row_rec ''K'' 820]"
proof -
  let ?it1 = "c2_it0\<lparr>records := [row_rec ''K'' 820], recordIndex := 0,
                     currentBlock := currentBlock c2_it0 + 1\<rparr>"
  let ?it2 = "?it1\<lparr>recordIndex := recordIndex ?it1 + 1,
                   currentRecord := records ?it1 ! recordIndex ?it1\<rparr>"
  have "Next_loop Some c2_index c2_it0 = Next_loop Some c2_index ?it1"
    by (rule Next_loop_load)
       (simp_all add: c2_it0_def c2_index_def c2_Footer c2_ReadBlock1 c2_meta1_def [THEN arg_cong, of StartKey])
  also have "\<dots> = (True, ?it2)"
    by (rule Next_loop_hit) (simp_all add: c2_it0_def c2_cmp)
  finally have n1: "Next Some c2_index c2_it0 = (True, ?it2)"
    by (simp add: Next_def c2_it0_def)
  have "Next_loop Some c2_index ?it2 = (False, ?it2\<lparr>done_it := True\<rparr>)"
    by (rule Next_loop_end) (simp_all add: c2_it0_def)
  then have n2: "Next Some c2_index ?it2 = (False, ?it2\<lparr>done_it := True\<rparr>)"
    by (simp add: Next_def c2_it0_def)
  have "drain Some c2_index c2_it0 [] = drain Some c2_index ?it2 [row_rec ''K'' 820]"
    by (subst drain.simps, subst n1) simp
  also have "\<dots> = ([row_rec ''K'' 820], ?it2\<lparr>done_it := True\<rparr>)"
    by (subst drain.simps, subst n2) simp
  finally show ?thesis by simp
qed

lemma sint_of_nat_small: "n < 2 ^ 63 \<Longrightarrow> sint (of_nat n :: 64 word) = int n"
proof -
  assume "n < 2 ^ 63"
  then have "int n < 2 ^ 63" by (simp add: nat_less_iff flip: of_nat_less_iff)
  have "sint (of_nat n :: 64 word) = sint (word_of_int (int n) :: 64 word)" by simp
  also have "\<dots> = signed_take_bit 63 (int n)" by (subst sint_sbintrunc') simp
  also have "\<dots> = int n" using \<open>int n < 2 ^ 63\<close> by (intro signed_take_bit_int_eq_self) simp_all
  finally show ?thesis .
qed

lemma sort_key_row_rec: "i < 1000 \<Longrightarrow> sort_key (row_rec k i) = (copy64 k, 2 + 2 * int i)"
  using sint_of_nat_small [of "2 + 2 * i"] by (simp add: sort_key_def row_rec_def)

lemma copy64_A_K: "copy64 ''A'' < copy64 ''K''"
  by code_simp

lemma c2_sorted: "sorted (map sort_key c2_records)"
proof -
  have a: "sorted (map sort_key (map (row_rec ''A'') [0 ..< 819]))"
  proof -
    have "sorted_wrt (\<lambda>i j. sort_key (row_rec ''A'' i) \<le> sort_key (row_rec ''A'' j)) [0 ..< 819]"
      by (rule sorted_wrt_mono_rel [where P = "(<)"])
         (auto simp: sort_key_row_rec less_eq_prod_def)
    then show ?thesis by (simp add: sorted_map sorted_wrt_map)
  qed
  have b: "\<forall>i \<in> set [0 ..< 819]. sort_key (row_rec ''A'' i) \<le> sort_key (row_rec ''K'' 819)
            \<and> sort_key (row_rec ''A'' i) \<le> sort_key (row_rec ''K'' 820)"
    using copy64_A_K by (auto simp: sort_key_row_rec less_eq_prod_def)
  have c: "sort_key (row_rec ''K'' 819) \<le> sort_key (row_rec ''K'' 820)"
    by (simp add: sort_key_row_rec less_eq_prod_def)
  show ?thesis
    using a b c by (auto simp: c2_records_def c2_block0_def sorted_append)
qed

text \<open>
  Claim C2 fails on this index. The file is what the block writer produces from the sorted
  records \<open>c2_records\<close>, and its two blocks read back as those records. Searching for \<open>K\<close>,
  \<open>findStartBlock\<close> answers block 1 (the last block whose start key is at most \<open>K\<close>; the
  block before it starts with \<open>A\<close>, so the walk back stops at once), and the iterator
  yields the one record of block 1. The record with key \<open>K\<close> at the end of block 0 is
  never yielded.
\<close>

theorem search_misses_record:
  "NewBlockReader c2_file = Inr c2_reader
   \<and> ReadBlock Some c2_reader (Footer c2_reader ! 0) = Inr c2_block0
   \<and> ReadBlock Some c2_reader (Footer c2_reader ! 1) = Inr [row_rec ''K'' 820]
   \<and> sorted (map sort_key c2_records)
   \<and> Search c2_index ''K'' = Inr (Some c2_it0)
   \<and> fst (drain Some c2_index c2_it0 []) = [row_rec ''K'' 820]
   \<and> row_rec ''K'' 819 \<in> set c2_records
   \<and> TrimRight0 (Key (row_rec ''K'' 819)) = ''K''
   \<and> row_rec ''K'' 819 \<notin> set (fst (drain Some c2_index c2_it0 []))"
proof -
  have "row_rec ''K'' 819 \<noteq> row_rec ''K'' 820" by (simp add: row_rec_def)
  moreover have "row_rec ''K'' 819 \<in> set c2_records"
    by (simp add: c2_records_def c2_block0_def)
  ultimately show ?thesis
    using c2_NewBlockReader c2_ReadBlock0 c2_ReadBlock1 c2_sorted c2_Search c2_drain trim_K
    by (simp add: c2_Footer Key_row_rec)
qed

section \<open>Conditions, overrides and the query planner\<close>

text \<open>
  A condition node. \<open>Value\<close> holds the \<open>%v\<close> rendering of the JSON value, which is all
  the planner reads of it.
\<close>

datatype Condition =
  Condition (Operator: string) (Column: string) (Value: string) (Children: "Condition list")

text \<open>A Go \<open>map[string]string\<close> as an association list; \<open>map_put\<close> is the assignment \<open>m[k] = v\<close>.\<close>

fun map_put :: "'k \<Rightarrow> 'v \<Rightarrow> ('k \<times> 'v) list \<Rightarrow> ('k \<times> 'v) list" where
  "map_put k v [] = [(k, v)]"
| "map_put k v ((k', v') # m) = (if k = k' then (k, v) # m else (k', v') # map_put k v m)"

definition map_get :: "(string \<times> string) list \<Rightarrow> string \<Rightarrow> string" where
  "map_get m k = (case map_of m k of None \<Rightarrow> [] | Some v \<Rightarrow> v)"

definition ExtractIndexConditions :: "Condition \<Rightarrow> (string \<times> string) list" where
  "ExtractIndexConditions c =
     (if Operator c = ''AND'' then
        fold (\<lambda>child res. if Operator child = ''='' then map_put (Column child) (Value child) res
                           else res)
          (Children c) []
      else if Operator c = ''='' then [(Column c, Value c)]
      else [])"

fun Join :: "string list \<Rightarrow> string \<Rightarrow> string" where
  "Join [] sep = []"
| "Join [x] sep = x"
| "Join (x # y # ys) sep = x @ sep @ Join (y # ys) sep"

text \<open>Paths: \<open>filepath.Base\<close>, \<open>filepath.Ext\<close> and \<open>strings.TrimSuffix\<close>, for paths that do not end in a separator.\<close>

definition path_base :: "string \<Rightarrow> string" where
  "path_base p = rev (takeWhile (\<lambda>c. c \<noteq> CHR ''/'') (rev p))"

definition path_ext :: "string \<Rightarrow> string" where
  "path_ext p =
     (let b = path_base p
      in if CHR ''.'' \<in> set b then CHR ''.'' # rev (takeWhile (\<lambda>c. c \<noteq> CHR ''.'') (rev b)) else [])"

definition TrimSuffix :: "string \<Rightarrow> string \<Rightarrow> string" where
  "TrimSuffix s suf =
     (if length suf \<le> length s \<and> drop (length s - length suf) s = suf
      then take (length s - length suf) s else s)"

definition csv_name :: "string \<Rightarrow> string" where
  "csv_name csvPath = TrimSuffix (path_base csvPath) (path_ext csvPath)"

text \<open>
  The files a query can see: the CSV at \<open>CsvPath\<close>, the overrides sidecar beside it, and the
  index directory with its \<open>.cidx\<close> and \<open>.cidx.bloom\<close> files by file name, in the order
  \<open>filepath.Glob\<close> lists them.
\<close>

datatype file_state = Missing | Unreadable | Content string

record filesystem =
  csv_file :: "string option"
  updates_file :: file_state
  index_dir :: "(string \<times> cidx_file) list"
  bloom_dir :: "(string \<times> 8 word list) list"

record QueryConfig =
  CsvPath :: string
  IndexDir :: string
  GroupBy :: string
  AggCol :: string
  AggFunc :: string
  CountOnly :: bool
  Limit :: int
  Offset_q :: int
  Explain :: bool

record UpdateManager =
  Overrides :: "(string \<times> (string \<times> string) list) list"

text \<open>
  \<open>LoadUpdates\<close>: a missing sidecar gives the empty override map; an unreadable one and one
  that \<open>json.Unmarshal\<close> rejects give an error. \<open>unmarshal\<close> is the library's parser, as the
  override map it fills in, with \<open>None\<close> for malformed input.
\<close>

definition LoadUpdates ::
  "(string \<Rightarrow> (string \<times> (string \<times> string) list) list option) \<Rightarrow> filesystem
   \<Rightarrow> error + UpdateManager" where
  "LoadUpdates unmarshal fs =
     (case updates_file fs of
        Missing \<Rightarrow> Inr \<lparr>Overrides = []\<rparr>
      | Unreadable \<Rightarrow> Inl UpdatesReadFailed
      | Content data \<Rightarrow>
          if data = [] then Inr \<lparr>Overrides = []\<rparr>
          else case unmarshal data of
                 None \<Rightarrow> Inl UpdatesParseFailed
               | Some rows \<Rightarrow> Inr \<lparr>Overrides = rows\<rparr>)"

record QueryEngine =
  config :: QueryConfig
  Updates :: "UpdateManager option"

definition NewQueryEngine ::
  "(string \<Rightarrow> (string \<times> (string \<times> string) list) list option) \<Rightarrow> filesystem \<Rightarrow> QueryConfig
   \<Rightarrow> QueryEngine" where
  "NewQueryEngine unmarshal fs cfg =
     \<lparr>config = cfg,
      Updates = (if CsvPath cfg \<noteq> [] then
                   (case LoadUpdates unmarshal fs of Inr um \<Rightarrow> Some um | Inl e \<Rightarrow> None)
                 else None)\<rparr>"

record plan =
  strategy :: string
  index_name :: string
  covered_columns :: "string list"

text \<open>
  \<open>findBestIndex\<close>: the equality columns in alphabetical order, the longest prefix first;
  the search key is the column's value for one column and the bracketed list of quoted
  values, in the order of the sorted columns, for several.
\<close>

definition search_key_for :: "(string \<times> string) list \<Rightarrow> string list \<Rightarrow> string" where
  "search_key_for conds currentCols =
     (if length currentCols = 1 then map_get conds (hd currentCols)
      else ''['' @ Join (map (\<lambda>col. [DQ] @ map_get conds col @ [DQ]) currentCols) '','' @ '']'')"

fun try_prefixes ::
  "filesystem \<Rightarrow> string \<Rightarrow> (string \<times> string) list \<Rightarrow> string list \<Rightarrow> nat
   \<Rightarrow> (string \<times> string \<times> bool \<times> plan) option" where
  "try_prefixes fs csvName conds cols 0 = None"
| "try_prefixes fs csvName conds cols (Suc n) =
     (let currentCols = take (Suc n) cols;
          indexName = Join currentCols ''_'';
          indexPath = csvName @ ''_'' @ indexName @ ''.cidx''
      in if map_of (index_dir fs) indexPath \<noteq> None then
           Some (indexPath, search_key_for conds currentCols, True,
                 \<lparr>strategy = ''Index Scan'', index_name = indexName,
                  covered_columns = currentCols\<rparr>)
         else try_prefixes fs csvName conds cols n)"

definition ReplaceAll :: "string \<Rightarrow> char \<Rightarrow> char \<Rightarrow> string" where
  "ReplaceAll s old new = map (\<lambda>c. if c = old then new else c) s"

definition findBestIndex ::
  "filesystem \<Rightarrow> QueryConfig \<Rightarrow> Condition option \<Rightarrow> error + (string \<times> string \<times> bool \<times> plan)" where
  "findBestIndex fs cfg cond =
     (let csvName = csv_name (CsvPath cfg);
          byEquality =
            (case cond of
               None \<Rightarrow> None
             | Some c \<Rightarrow>
                 let conds = ExtractIndexConditions c;
                     cols = sort (map fst conds)
                 in try_prefixes fs csvName conds cols (length cols))
      in case byEquality of
           Some found \<Rightarrow> Inr found
         | None \<Rightarrow>
             if GroupBy cfg \<noteq> [] then
               let groupName = ReplaceAll (GroupBy cfg) (CHR '','') (CHR ''_'');
                   indexPath = csvName @ ''_'' @ groupName @ ''.cidx''
               in if map_of (index_dir fs) indexPath \<noteq> None then
                    Inr (indexPath, [], False,
                         \<lparr>strategy = ''GroupBy Index Scan'', index_name = groupName,
                          covered_columns = []\<rparr>)
                  else Inl NoIndexFound
             else Inl NoIndexFound)"

text \<open>
  \<open>runCountAll\<close>: the count from the directory of the first index that the glob
  \<open><csv>_*.cidx\<close> finds, or else the newline count over the mapped CSV, split between at
  most 16 workers (\<open>ncpu\<close> is \<open>runtime.NumCPU()\<close>). The base name of the CSV goes into the
  pattern as it is; \<open>glob_cidx\<close> matches it literally, which is what \<open>filepath.Glob\<close> does for
  a base name without the pattern characters \<open>*\<close>, \<open>?\<close>, \<open>[\<close> and the backslash. Names
  with such characters are outside this definition.
\<close>

definition glob_cidx :: "filesystem \<Rightarrow> string \<Rightarrow> (string \<times> cidx_file) list" where
  "glob_cidx fs csvBase =
     filter (\<lambda>(name, f). length csvBase + 1 + 5 \<le> length name
                         \<and> take (length csvBase + 1) name = csvBase @ ''_''
                         \<and> drop (length name - 5) name = ''.cidx'')
       (index_dir fs)"

definition tryCountFromIndex :: "filesystem \<Rightarrow> QueryConfig \<Rightarrow> int option" where
  "tryCountFromIndex fs cfg =
     (if IndexDir cfg = [] then None
      else case glob_cidx fs (csv_name (CsvPath cfg)) of
             [] \<Rightarrow> None
           | (name, f) # others \<Rightarrow>
               (case NewBlockReader f of
                  Inl e \<Rightarrow> None
                | Inr br \<Rightarrow>
                    if \<exists>block \<in> set (Footer br). RecordCount block = 0 then None
                    else Some (sum_list (map RecordCount (Footer br)))))"

definition count_newlines :: "string \<Rightarrow> int" where
  "count_newlines chunk = int (length (filter (\<lambda>c. c = NL) chunk))"

definition runCountAllViaCsv :: "nat \<Rightarrow> filesystem \<Rightarrow> error + int" where
  "runCountAllViaCsv ncpu fs =
     (case csv_file fs of
        None \<Rightarrow> Inl OpenFailed
      | Some data \<Rightarrow>
          if data = [] then Inr 0
          else
            let workers = (if 16 < ncpu then 16 else ncpu);
                chunkSize = length data div workers;
                counts = map (\<lambda>i. let start = i * chunkSize;
                                       end = (if i = workers - 1 then length data
                                              else start + chunkSize)
                                   in count_newlines (slice data start end))
                           [0 ..< workers];
                total0 = sum_list counts;
                total1 = (if last data \<noteq> NL then total0 + 1 else total0);
                total2 = (if 0 < total1 then total1 - 1 else total1)
            in Inr total2)"

text \<open>\<open>extractCols\<close>, the row materialization of the query engine.\<close>

fun extract_walk ::
  "string \<Rightarrow> char \<Rightarrow> int \<Rightarrow> string \<Rightarrow> nat \<Rightarrow> nat \<Rightarrow> bool \<Rightarrow> string list \<Rightarrow> string list" where
  "extract_walk line sep maxCol [] i start inQuote cols = cols @ [unquote (drop start line)]"
| "extract_walk line sep maxCol (c # cs) i start inQuote cols =
     (let inQuote1 = (if c = DQ then \<not> inQuote else inQuote)
      in if c = sep \<and> \<not> inQuote1 then
           let cols1 = cols @ [unquote (slice line start i)]
           in if maxCol < int (length cols1) then cols1
              else extract_walk line sep maxCol cs (i + 1) (i + 1) inQuote1 cols1
         else extract_walk line sep maxCol cs (i + 1) start inQuote1 cols)"

definition extractCols :: "string \<Rightarrow> char \<Rightarrow> int \<Rightarrow> string list" where
  "extractCols line sep maxCol = extract_walk line sep maxCol line 0 0 False []"

section \<open>Query execution\<close>

text \<open>
  What a query run does: the strategy it executes and, for the paths through an index,
  what it prints. The full scan and the aggregation over an index are named, their output is not
  computed here.
\<close>

datatype outcome =
    CountAllFromIndex int
  | CountAllFromCsv int
  | FullScan
  | ExplainPlan plan
  | IndexAggregation
  | IndexRows "(64 word \<times> 64 word) list" "int option"

record so_state =
  count_so :: int
  skipped :: int
  limitReached :: bool
  written :: "(64 word \<times> 64 word) list"

text \<open>
  \<open>runStandardOutput\<close>, the loop over the records of one block. \<open>keep\<close> is the re-filter
  \<open>where.Evaluate\<close> on the materialized row when a condition is left (\<open>None\<close> when the
  index covers the condition or there is none).
\<close>

fun so_records ::
  "QueryConfig \<Rightarrow> bool \<Rightarrow> string \<Rightarrow> (IndexRecord \<Rightarrow> bool) option \<Rightarrow> IndexRecord list \<Rightarrow> so_state
   \<Rightarrow> so_state" where
  "so_records cfg hasSearchKey key keep [] st = st"
| "so_records cfg hasSearchKey key keep (rec # recs) st =
     (let cmp = compareRecordKey (Key rec) key
      in if hasSearchKey \<and> cmp < 0 then so_records cfg hasSearchKey key keep recs st
         else if hasSearchKey \<and> 0 < cmp then st\<lparr>limitReached := True\<rparr>
         else if (case keep of None \<Rightarrow> False | Some f \<Rightarrow> \<not> f rec)
              then so_records cfg hasSearchKey key keep recs st
         else if skipped st < Offset_q cfg
              then so_records cfg hasSearchKey key keep recs (st\<lparr>skipped := skipped st + 1\<rparr>)
         else
           let st1 = st\<lparr>count_so := count_so st + 1,
                        written := (if CountOnly cfg then written st
                                    else written st @ [(Offset rec, Line rec)])\<rparr>
           in if 0 < Limit cfg \<and> Limit cfg \<le> count_so st1 then st1\<lparr>limitReached := True\<rparr>
              else so_records cfg hasSearchKey key keep recs st1)"

fun so_blocks ::
  "(string \<Rightarrow> string option) \<Rightarrow> BlockReader \<Rightarrow> QueryConfig \<Rightarrow> bool \<Rightarrow> string
   \<Rightarrow> (IndexRecord \<Rightarrow> bool) option \<Rightarrow> BlockMeta list \<Rightarrow> so_state \<Rightarrow> error + so_state" where
  "so_blocks lz4d br cfg hasSearchKey key keep [] st = Inr st"
| "so_blocks lz4d br cfg hasSearchKey key keep (blockMeta # rest) st =
     (if limitReached st then Inr st
      else if hasSearchKey \<and> key < StartKey blockMeta then Inr st
      else case ReadBlock lz4d br blockMeta of
             Inl e \<Rightarrow> Inl e
           | Inr recs \<Rightarrow>
               so_blocks lz4d br cfg hasSearchKey key keep rest
                 (so_records cfg hasSearchKey key keep recs st))"

definition runStandardOutput ::
  "(string \<Rightarrow> string option) \<Rightarrow> filesystem \<Rightarrow> QueryConfig \<Rightarrow> BlockReader \<Rightarrow> string \<Rightarrow> bool \<Rightarrow> nat
   \<Rightarrow> (IndexRecord \<Rightarrow> bool) option \<Rightarrow> error + outcome" where
  "runStandardOutput lz4d fs cfg br key hasSearchKey startBlockIdx keep =
     (case csv_file fs of
        None \<Rightarrow> Inl OpenFailed
      | Some data \<Rightarrow>
          if data = [] then Inl EOF
          else case so_blocks lz4d br cfg hasSearchKey key keep (drop startBlockIdx (Footer br))
                      \<lparr>count_so = 0, skipped = 0, limitReached = False, written = []\<rparr> of
                 Inl e \<Rightarrow> Inl e
               | Inr st \<Rightarrow>
                   Inr (IndexRows (written st) (if CountOnly cfg then Some (count_so st) else None)))"

text \<open>ASCII case folding, for \<open>strings.EqualFold\<close> and \<open>strings.ToLower\<close> on ASCII names.\<close>

definition lower_char :: "char \<Rightarrow> char" where
  "lower_char c = (if CHR ''A'' \<le> c \<and> c \<le> CHR ''Z'' then char_of (of_char c + (32 :: nat)) else c)"

definition ToLower :: "string \<Rightarrow> string" where
  "ToLower s = map lower_char s"

definition EqualFold :: "string \<Rightarrow> string \<Rightarrow> bool" where
  "EqualFold a b \<longleftrightarrow> ToLower a = ToLower b"

definition runCountAll :: "nat \<Rightarrow> filesystem \<Rightarrow> QueryConfig \<Rightarrow> error + outcome" where
  "runCountAll ncpu fs cfg =
     (case tryCountFromIndex fs cfg of
        Some n \<Rightarrow> Inr (CountAllFromIndex n)
      | None \<Rightarrow>
          (case runCountAllViaCsv ncpu fs of
             Inl e \<Rightarrow> Inl e
           | Inr n \<Rightarrow> Inr (CountAllFromCsv n)))"

text \<open>
  \<open>QueryEngine.Run\<close>. The steps are in the order of the source: the two argument checks,
  the count-all shortcut, the overrides check, the planner, the covered-columns test,
  explain, the index file and its directory, the bloom probe, the start block, and the
  output loop.
\<close>

definition Run ::
  "(string \<Rightarrow> string option) \<Rightarrow> nat \<Rightarrow> (Condition \<Rightarrow> IndexRecord \<Rightarrow> bool) \<Rightarrow> filesystem \<Rightarrow> QueryEngine
   \<Rightarrow> Condition option \<Rightarrow> error + outcome" where
  "Run lz4d ncpu refilter fs q cond =
     (let cfg = config q
      in if CsvPath cfg = [] then Inl CsvPathRequired
         else if cond = None \<and> GroupBy cfg = [] \<and> \<not> CountOnly cfg then Inl NoWhereOrGroupBy
         else if CountOnly cfg \<and> cond = None \<and> GroupBy cfg = [] then runCountAll ncpu fs cfg
         else if (case Updates q of None \<Rightarrow> False | Some um \<Rightarrow> Overrides um \<noteq> [])
              then Inr FullScan
         else case findBestIndex fs cfg cond of
                Inl e \<Rightarrow> Inr FullScan
              | Inr (indexPath, key, hasSearchKey, pl) \<Rightarrow>
                  let allCovered =
                        (case cond of
                           None \<Rightarrow> False
                         | Some c \<Rightarrow>
                             covered_columns pl \<noteq> []
                             \<and> (\<forall>k \<in> set (map fst (ExtractIndexConditions c)).
                                  \<exists>col \<in> set (covered_columns pl). EqualFold col k));
                      cond1 = (if allCovered then None else cond)
                  in if Explain cfg then Inr (ExplainPlan pl)
                     else case map_of (index_dir fs) indexPath of
                            None \<Rightarrow> Inl OpenFailed
                          | Some f \<Rightarrow>
                              (case NewBlockReader f of
                                 Inl e \<Rightarrow> Inl e
                               | Inr br \<Rightarrow>
                                   let nothing = Inr (IndexRows [] (if CountOnly cfg then Some 0
                                                                    else None));
                                       probe_result =
                                         (if hasSearchKey then
                                            (case map_of (bloom_dir fs) (indexPath @ ''.bloom'') of
                                               None \<Rightarrow> Some True
                                             | Some bytes \<Rightarrow>
                                                 (case DeserializeBloom bytes of
                                                    None \<Rightarrow> Some True
                                                  | Some bf \<Rightarrow> MightContain bf key))
                                          else Some True)
                                   in case probe_result of
                                        None \<Rightarrow> Inl Panic
                                      | Some False \<Rightarrow> nothing
                                      | Some True \<Rightarrow>
                                          let startBlockIdx =
                                                (if hasSearchKey then findStartBlock (Footer br) key
                                                 else 0)
                                          in if startBlockIdx = - 1 then nothing
                                             else if GroupBy cfg \<noteq> [] then Inr IndexAggregation
                                             else runStandardOutput lz4d fs cfg br key hasSearchKey
                                                    (nat startBlockIdx)
                                                    (map_option refilter cond1)))"

text \<open>
  \<open>Executor.ExecuteWithCondition\<close> of the second package tree, with the same order of
  steps. Its count-all reads \<open>ApproximateCount\<close> of the first index found; its index path
  goes through \<open>DiskIndex.Search\<close> or \<open>Scan\<close> and the iterator.
\<close>

definition OpenDiskIndex :: "filesystem \<Rightarrow> string \<Rightarrow> error + DiskIndex" where
  "OpenDiskIndex fs path =
     (case map_of (index_dir fs) path of
        None \<Rightarrow> Inl OpenFailed
      | Some f \<Rightarrow>
          (case NewBlockReader f of
             Inl e \<Rightarrow> Inl e
           | Inr br \<Rightarrow>
               Inr \<lparr>reader = br,
                    bloom = (case map_of (bloom_dir fs) (path @ ''.bloom'') of
                               None \<Rightarrow> None
                             | Some bytes \<Rightarrow> DeserializeBloom bytes)\<rparr>))"

definition ApproximateCount :: "DiskIndex \<Rightarrow> int" where
  "ApproximateCount idx = sum_list (map RecordCount (Footer (reader idx)))"

definition Executor_runCountAll :: "nat \<Rightarrow> filesystem \<Rightarrow> QueryConfig \<Rightarrow> error + outcome" where
  "Executor_runCountAll ncpu fs cfg =
     (let fromIndex =
            (if IndexDir cfg = [] then None
             else case glob_cidx fs (csv_name (CsvPath cfg)) of
                    [] \<Rightarrow> None
                  | (name, f) # others \<Rightarrow>
                      (case OpenDiskIndex fs name of
                         Inl e \<Rightarrow> None
                       | Inr idx \<Rightarrow> Some (ApproximateCount idx)))
      in case fromIndex of
           Some n \<Rightarrow> Inr (CountAllFromIndex n)
         | None \<Rightarrow>
             (case runCountAllViaCsv ncpu fs of
                Inl e \<Rightarrow> Inl e
              | Inr n \<Rightarrow> Inr (CountAllFromCsv n)))"

definition Scan_index :: "DiskIndex \<Rightarrow> diskIterator" where
  "Scan_index idx =
     \<lparr>searchKey = [], scanMode = True, currentBlock = 0, records = [], recordIndex = 0,
      totalBlocks = length (Footer (reader idx)), currentRecord = zero_record, err = None,
      done_it = False\<rparr>"

fun Executor_rows ::
  "QueryConfig \<Rightarrow> bool \<Rightarrow> string \<Rightarrow> IndexRecord list \<Rightarrow> so_state \<Rightarrow> so_state" where
  "Executor_rows cfg hasSearchKey key [] st = st"
| "Executor_rows cfg hasSearchKey key (rec # recs) st =
     (if hasSearchKey \<and> 0 < compareRecordKey (Key rec) key then st
      else if skipped st < Offset_q cfg
           then Executor_rows cfg hasSearchKey key recs (st\<lparr>skipped := skipped st + 1\<rparr>)
      else
        let st1 = st\<lparr>count_so := count_so st + 1,
                     written := (if CountOnly cfg then written st
                                 else written st @ [(Offset rec, Line rec)])\<rparr>
        in if 0 < Limit cfg \<and> Limit cfg \<le> count_so st1 then st1\<lparr>limitReached := True\<rparr>
           else Executor_rows cfg hasSearchKey key recs st1)"

definition ExecuteWithCondition ::
  "(string \<Rightarrow> string option) \<Rightarrow> nat \<Rightarrow> filesystem \<Rightarrow> UpdateManager option \<Rightarrow> QueryConfig
   \<Rightarrow> Condition option \<Rightarrow> error + outcome" where
  "ExecuteWithCondition lz4d ncpu fs updates req cond =
     (if CsvPath req = [] then Inl CsvPathRequired
      else if CountOnly req \<and> cond = None \<and> GroupBy req = [] then Executor_runCountAll ncpu fs req
      else if (case updates of None \<Rightarrow> False | Some um \<Rightarrow> Overrides um \<noteq> [])
           then Inr FullScan
      else case findBestIndex fs req cond of
             Inl e \<Rightarrow> Inr FullScan
           | Inr (indexPath, key, hasSearchKey, pl) \<Rightarrow>
               let allCovered =
                     (case cond of
                        None \<Rightarrow> False
                      | Some c \<Rightarrow>
                          covered_columns pl \<noteq> []
                          \<and> (\<forall>k \<in> set (map fst (ExtractIndexConditions c)).
                                \<exists>col \<in> set (covered_columns pl). EqualFold col k));
                   cond1 = (if allCovered then None else cond)
               in
               if Explain req then Inr (ExplainPlan pl)
               else case OpenDiskIndex fs indexPath of
                      Inl e \<Rightarrow> Inl e
                    | Inr idx \<Rightarrow>
                        (case (if hasSearchKey then Search idx key
                               else Inr (Some (Scan_index idx))) of
                           Inl e \<Rightarrow> Inl e
                         | Inr iter \<Rightarrow>
                             if GroupBy req \<noteq> [] then Inr IndexAggregation
                             else if cond1 \<noteq> None \<and> csv_file fs = None then Inl OpenFailed
                             else
                               let recs = (case iter of
                                             None \<Rightarrow> []
                                           | Some it \<Rightarrow> fst (drain lz4d idx it []));
                                   st = Executor_rows req hasSearchKey key recs
                                          \<lparr>count_so = 0, skipped = 0, limitReached = False,
                                           written = []\<rparr>
                               in Inr (IndexRows (written st)
                                         (if CountOnly req then Some (count_so st) else None))))"

text \<open>
  \<^verbatim>\<open>handleQuery\<close> of \<^verbatim>\<open>cmd/csvquery/main.go\<close>: the error of \<^verbatim>\<open>LoadUpdates\<close> is not acted
  upon (the call of \<^verbatim>\<open>fatalError\<close> is commented out), and the executor is built from the
  returned pointer, which is nil on error.
\<close>

definition handleQuery ::
  "(string \<Rightarrow> (string \<times> (string \<times> string) list) list option) \<Rightarrow> (string \<Rightarrow> string option) \<Rightarrow> nat
   \<Rightarrow> filesystem \<Rightarrow> QueryConfig \<Rightarrow> Condition option \<Rightarrow> error + outcome" where
  "handleQuery unmarshal lz4d ncpu fs cfg cond =
     ExecuteWithCondition lz4d ncpu fs
       (case LoadUpdates unmarshal fs of Inl e \<Rightarrow> None | Inr um \<Rightarrow> Some um) cfg cond"

section \<open>Row overrides and the choice of strategy\<close>

definition c7_overrides :: UpdateManager where
  "c7_overrides = \<lparr>Overrides = [(''3'', [(''dept'', ''Ops'')])]\<rparr>"

definition c7_cfg :: QueryConfig where
  "c7_cfg = \<lparr>CsvPath = ''data.csv'', IndexDir = ''idx'', GroupBy = [], AggCol = [], AggFunc = [],
             CountOnly = True, Limit = 0, Offset_q = 0, Explain = False\<rparr>"

definition c7_fs :: filesystem where
  "c7_fs = \<lparr>csv_file = Some (''dept'' @ [NL] @ ''Eng'' @ [NL]),
            updates_file = Content ''{}'',
            index_dir = [(''data_dept.cidx'', Close id (WriteRecord id NewBlockWriter sample_rec))],
            bloom_dir = []\<rparr>"

lemma c7_name: "csv_name ''data.csv'' = ''data''"
  by code_simp

lemma c7_glob: "glob_cidx c7_fs ''data'' = index_dir c7_fs"
  by (simp add: glob_cidx_def c7_fs_def)

lemma c7_count: "tryCountFromIndex c7_fs c7_cfg = Some 1"
  by (simp add: tryCountFromIndex_def c7_cfg_def c7_name c7_glob,
      simp add: c7_fs_def NewBlockReader_def Close_def WriteRecord_def FlushBlock_def Let_def
        NewBlockWriter_def BlockTargetSize_def)

definition c7_where :: Condition where
  "c7_where = Condition ''='' ''dept'' ''Eng'' []"

text \<open>
  Claim C7, as stated, fails: a count-only query with neither a where condition nor a group-by
  is dispatched to the count-all path before the overrides are looked at, both in
  \<^verbatim>\<open>QueryEngine.Run\<close> and in \<^verbatim>\<open>Executor.ExecuteWithCondition\<close>.  With a non-empty override map
  and one index file on disk, both return the record count of the index directory.
\<close>

theorem count_all_despite_overrides:
  "Overrides c7_overrides \<noteq> []
   \<and> Run Some 4 (\<lambda>c rc. True) c7_fs \<lparr>config = c7_cfg, Updates = Some c7_overrides\<rparr> None
       = Inr (CountAllFromIndex 1)
   \<and> ExecuteWithCondition Some 4 c7_fs (Some c7_overrides) c7_cfg None
       = Inr (CountAllFromIndex 1)"
proof -
  have a: "CsvPath c7_cfg \<noteq> []" "CountOnly c7_cfg" "GroupBy c7_cfg = []" "IndexDir c7_cfg \<noteq> []"
    by (simp_all add: c7_cfg_def)
  have "OpenDiskIndex c7_fs ''data_dept.cidx''
        = Inr \<lparr>reader = \<lparr>r = body (Close id (WriteRecord id NewBlockWriter sample_rec)),
                          Footer = the (footer (Close id (WriteRecord id NewBlockWriter sample_rec)))\<rparr>,
                bloom = None\<rparr>"
    by (simp add: OpenDiskIndex_def c7_fs_def NewBlockReader_def Close_def Let_def)
  moreover have "sum_list (map RecordCount
       (the (footer (Close id (WriteRecord id NewBlockWriter sample_rec))))) = 1"
    by (simp add: Close_def WriteRecord_def FlushBlock_def Let_def NewBlockWriter_def
        BlockTargetSize_def)
  ultimately have e: "Executor_runCountAll 4 c7_fs c7_cfg = Inr (CountAllFromIndex 1)"
    using a by (simp add: Executor_runCountAll_def c7_name c7_glob ApproximateCount_def
        c7_cfg_def [THEN arg_cong, of CsvPath] c7_fs_def [THEN arg_cong, of index_dir])
  have r: "runCountAll 4 c7_fs c7_cfg = Inr (CountAllFromIndex 1)"
    by (simp add: runCountAll_def c7_count)
  show ?thesis
    using a r e by (simp add: Run_def ExecuteWithCondition_def c7_overrides_def)
qed

text \<open>
  Claim C7, amended: when the override map is non-empty and a csv path is given, every query
  that has a where condition or a group-by runs as a full scan, whatever indexes exist and
  whatever the count-only, limit, offset and explain settings are.
\<close>

theorem overrides_force_full_scan:
  assumes "Updates q = Some um" and "Overrides um \<noteq> []" and "CsvPath (config q) \<noteq> []"
    and "cond \<noteq> None \<or> GroupBy (config q) \<noteq> []"
  shows "Run lz4d ncpu refilter fs q cond = Inr FullScan
         \<and> ExecuteWithCondition lz4d ncpu fs (Updates q) (config q) cond = Inr FullScan"
  using assms by (auto simp: Run_def ExecuteWithCondition_def Let_def)

theorem overrides_force_full_scan_witness:
  "Run Some 4 (\<lambda>c rc. True) c7_fs \<lparr>config = c7_cfg, Updates = Some c7_overrides\<rparr> (Some c7_where)
     = Inr FullScan
   \<and> ExecuteWithCondition Some 4 c7_fs (Some c7_overrides) c7_cfg (Some c7_where) = Inr FullScan"
  using overrides_force_full_scan
    [of "\<lparr>config = c7_cfg, Updates = Some c7_overrides\<rparr>" c7_overrides "Some c7_where"
        Some 4 "\<lambda>c rc. True" c7_fs]
  by (simp add: c7_overrides_def c7_cfg_def)

section \<open>A malformed overrides file\<close>

lemma try_prefixes_cong:
  "index_dir fs' = index_dir fs \<Longrightarrow>
   try_prefixes fs' csvName conds cols n = try_prefixes fs csvName conds cols n"
  by (induction n) (simp_all add: Let_def)

lemma findBestIndex_cong:
  "index_dir fs' = index_dir fs \<Longrightarrow> findBestIndex fs' cfg cond = findBestIndex fs cfg cond"
  by (cases cond)
     (simp_all add: findBestIndex_def Let_def try_prefixes_cong [of fs' fs]
        cong: option.case_cong)

definition c9_unmarshal :: "string \<Rightarrow> (string \<times> (string \<times> string) list) list option" where
  "c9_unmarshal data = (if data = ''{}'' then Some [] else None)"

definition c9_fs :: filesystem where
  "c9_fs = \<lparr>csv_file = Some (''dept'' @ [NL] @ ''Eng'' @ [NL]),
            updates_file = Content ''{rows:'',
            index_dir = [], bloom_dir = []\<rparr>"

definition c9_cfg :: QueryConfig where
  "c9_cfg = \<lparr>CsvPath = ''data.csv'', IndexDir = ''idx'', GroupBy = [], AggCol = [], AggFunc = [],
             CountOnly = False, Limit = 0, Offset_q = 0, Explain = False\<rparr>"

text \<open>
  Claim C9: a missing overrides file is benign, and the code contradicts the second half of the
  claim.  When the file exists, is not empty and \<^verbatim>\<open>json.Unmarshal\<close> rejects it,
  \<^verbatim>\<open>LoadUpdates\<close> does return an error, but \<^verbatim>\<open>NewQueryEngine\<close> and \<^verbatim>\<open>handleQuery\<close> drop it: the query
  runs, and gives what it gives when the file does not exist.
\<close>

theorem malformed_updates_ignored:
  assumes "updates_file fs = Content data" and "data \<noteq> []" and "unmarshal data = None"
    and "CsvPath cfg \<noteq> []"
  shows "LoadUpdates unmarshal fs = Inl UpdatesParseFailed
         \<and> Updates (NewQueryEngine unmarshal fs cfg) = None
         \<and> Run lz4d ncpu refilter fs (NewQueryEngine unmarshal fs cfg) cond
             = Run lz4d ncpu refilter (fs\<lparr>updates_file := Missing\<rparr>)
                 (NewQueryEngine unmarshal (fs\<lparr>updates_file := Missing\<rparr>) cfg) cond
         \<and> handleQuery unmarshal lz4d ncpu fs cfg cond
             = handleQuery unmarshal lz4d ncpu (fs\<lparr>updates_file := Missing\<rparr>) cfg cond"
proof -
  have l: "LoadUpdates unmarshal fs = Inl UpdatesParseFailed"
    using assms by (simp add: LoadUpdates_def)
  have m: "LoadUpdates unmarshal (fs\<lparr>updates_file := Missing\<rparr>) = Inr \<lparr>Overrides = []\<rparr>"
    by (simp add: LoadUpdates_def)
  have f: "findBestIndex (fs\<lparr>updates_file := Missing\<rparr>) = findBestIndex fs"
    by (intro ext findBestIndex_cong) simp
  have c: "runCountAll ncpu (fs\<lparr>updates_file := Missing\<rparr>) = runCountAll ncpu fs"
    "Executor_runCountAll ncpu (fs\<lparr>updates_file := Missing\<rparr>) = Executor_runCountAll ncpu fs"
    by (intro ext, simp add: runCountAll_def Executor_runCountAll_def tryCountFromIndex_def
        glob_cidx_def runCountAllViaCsv_def OpenDiskIndex_def
        cong: option.case_cong sum.case_cong list.case_cong prod.case_cong)+
  have s: "runStandardOutput lz4d (fs\<lparr>updates_file := Missing\<rparr>) = runStandardOutput lz4d fs"
    by (intro ext) (simp add: runStandardOutput_def)
  have o: "OpenDiskIndex (fs\<lparr>updates_file := Missing\<rparr>) = OpenDiskIndex fs"
    by (intro ext)
       (simp add: OpenDiskIndex_def cong: option.case_cong sum.case_cong)
  show ?thesis
    using assms(4)
    by (simp add: l m NewQueryEngine_def Run_def handleQuery_def ExecuteWithCondition_def
        f c s o Let_def
        cong: option.case_cong sum.case_cong prod.case_cong if_cong bool.case_cong)
qed

theorem malformed_updates_ignored_witness:
  "LoadUpdates c9_unmarshal c9_fs = Inl UpdatesParseFailed
   \<and> Updates (NewQueryEngine c9_unmarshal c9_fs c9_cfg) = None
   \<and> Run Some 4 (\<lambda>c rc. True) c9_fs (NewQueryEngine c9_unmarshal c9_fs c9_cfg) (Some c7_where)
       = Run Some 4 (\<lambda>c rc. True) (c9_fs\<lparr>updates_file := Missing\<rparr>)
           (NewQueryEngine c9_unmarshal (c9_fs\<lparr>updates_file := Missing\<rparr>) c9_cfg) (Some c7_where)
   \<and> handleQuery c9_unmarshal Some 4 c9_fs c9_cfg (Some c7_where)
       = handleQuery c9_unmarshal Some 4 (c9_fs\<lparr>updates_file := Missing\<rparr>) c9_cfg (Some c7_where)"
  using malformed_updates_ignored
    [of c9_fs "''{rows:''" c9_unmarshal c9_cfg Some 4 "\<lambda>c rc. True" "Some c7_where"]
  by (simp add: c9_fs_def c9_unmarshal_def c9_cfg_def)

section \<open>Enclosing quotes of a field\<close>

text \<open>
  The fields of a row, as a specification: the line is cut at every separator that stands
  outside quotes, and a field keeps all its bytes, quotes included.  \<open>fill\<close> stores values
  into consecutive slots of the scanner's row buffer.
\<close>

fun split_fields :: "char \<Rightarrow> string \<Rightarrow> bool \<Rightarrow> string \<Rightarrow> string list" where
  "split_fields sep [] inQuote cur = [cur]"
| "split_fields sep (c # cs) inQuote cur =
     (if c = DQ then split_fields sep cs (\<not> inQuote) (cur @ [c])
      else if c = sep \<and> \<not> inQuote then cur # split_fields sep cs inQuote []
      else split_fields sep cs inQuote (cur @ [c]))"

definition raw_fields :: "string \<Rightarrow> char \<Rightarrow> string list" where
  "raw_fields line sep = split_fields sep line False []"

fun fill :: "string option list \<Rightarrow> nat \<Rightarrow> string list \<Rightarrow> string option list" where
  "fill vals k [] = vals"
| "fill vals k (f # fs) = fill (vals[k := Some f]) (k + 1) fs"

lemma slice_snoc:
  "start \<le> length pre \<Longrightarrow> slice (pre @ c # cs) start (length pre + 1) = slice (pre @ c # cs) start (length pre) @ [c]"
  by (simp add: slice_def take_Suc_conv_app_nth Suc_diff_le nth_append)

lemma slice_empty [simp]: "slice xs a a = []"
  by (simp add: slice_def)

lemma unquote_quoted:
  assumes "2 \<le> length f" and "hd f = DQ" and "last f = DQ"
  shows "unquote f = butlast (tl f)"
proof -
  from assms(1) have ne: "f \<noteq> []" by auto
  have "f ! 0 = DQ" using assms(2) ne by (simp add: hd_conv_nth)
  moreover have "f ! (length f - 1) = DQ" using assms(3) ne by (simp add: last_conv_nth)
  moreover have "slice f 1 (length f - 1) = butlast (tl f)"
    by (simp add: slice_def butlast_conv_take drop_Suc)
  ultimately show ?thesis using assms(1) by (simp add: unquote_def)
qed

lemma extract_walk_fields:
  assumes "sep \<noteq> DQ"
  shows "line = pre @ cs \<Longrightarrow> i = length pre \<Longrightarrow> start \<le> i
     \<Longrightarrow> length cols < nat (max 1 (maxCol + 1))
     \<Longrightarrow> extract_walk line sep maxCol cs i start inQuote cols
         = cols @ map unquote (take (nat (max 1 (maxCol + 1)) - length cols)
                                (split_fields sep cs inQuote (slice line start i)))"
proof (induction cs arbitrary: pre i start inQuote cols)
  case Nil
  then show ?case
    by (cases "nat (max 1 (maxCol + 1)) - length cols") (simp_all add: slice_def)
next
  case (Cons c cs)
  have l: "line = (pre @ [c]) @ cs" "i + 1 = length (pre @ [c])"
    using Cons.prems by simp_all
  have sn: "slice line start (i + 1) = slice line start i @ [c]"
    using Cons.prems slice_snoc [of start pre c cs] by simp
  show ?case
  proof (cases "c = DQ")
    case True
    then show ?thesis
      using Cons.IH [OF l, of start cols "\<not> inQuote"] Cons.prems assms sn by simp
  next
    case nq: False
    show ?thesis
    proof (cases "c = sep \<and> \<not> inQuote")
      case True
      let ?cols1 = "cols @ [unquote (slice line start i)]"
      obtain k where k: "nat (max 1 (maxCol + 1)) - length cols = Suc k"
        using Cons.prems(4) by (cases "nat (max 1 (maxCol + 1)) - length cols") auto
      show ?thesis
      proof (cases "maxCol < int (length ?cols1)")
        case True
        then have "k = 0" using k by auto
        then show ?thesis using True nq \<open>c = sep \<and> \<not> inQuote\<close> k by (simp add: Let_def)
      next
        case False
        then have lt: "length ?cols1 < nat (max 1 (maxCol + 1))" by auto
        have k': "nat (max 1 (maxCol + 1)) - length ?cols1 = k" using k by simp
        show ?thesis
          using Cons.IH [OF l _ lt, of "i + 1" inQuote] False nq \<open>c = sep \<and> \<not> inQuote\<close> k k'
          by (simp add: Let_def)
      qed
    next
      case False
      then show ?thesis
        using Cons.IH [OF l, of start cols inQuote] Cons.prems nq sn by (auto simp: Let_def)
    qed
  qed
qed

lemma extractCols_fields:
  "sep \<noteq> DQ \<Longrightarrow>
   extractCols line sep maxCol = map unquote (take (nat (max 1 (maxCol + 1))) (raw_fields line sep))"
  using extract_walk_fields [of sep line "[]" line 0 0 "[]" maxCol False]
  by (simp add: extractCols_def raw_fields_def)

definition finish :: "string \<Rightarrow> nat \<Rightarrow> nat \<times> nat \<times> string option list \<Rightarrow> string option list" where
  "finish line ncols st =
     (case st of (colIdx, fieldStart, vals) \<Rightarrow>
        if colIdx < ncols \<and> fieldStart \<le> length line
        then vals[colIdx := Some (unquote (drop fieldStart line))] else vals)"

lemma fill_out: "length vals \<le> k \<Longrightarrow> fill vals k fs = vals"
  by (induction fs arbitrary: vals k) (simp_all add: list_update_beyond)

lemma parse_fields_fill:
  assumes "sep \<noteq> DQ"
  shows "line = pre @ cs \<Longrightarrow> i = length pre \<Longrightarrow> fieldStart \<le> i \<Longrightarrow> length vals = ncols
     \<Longrightarrow> finish line ncols (parse_fields line sep ncols cs i colIdx fieldStart inQuote vals)
         = fill vals colIdx (map unquote (split_fields sep cs inQuote (slice line fieldStart i)))"
proof (induction cs arbitrary: pre i fieldStart inQuote vals colIdx)
  case Nil
  then show ?case by (auto simp: finish_def slice_def list_update_beyond)
next
  case (Cons c cs)
  have l: "line = (pre @ [c]) @ cs" "i + 1 = length (pre @ [c])"
    using Cons.prems by simp_all
  have sn: "slice line fieldStart (i + 1) = slice line fieldStart i @ [c]"
    using Cons.prems slice_snoc [of fieldStart pre c cs] by simp
  show ?case
  proof (cases "colIdx < ncols")
    case False
    then show ?thesis using Cons.prems by (simp add: finish_def fill_out)
  next
    case True
    then show ?thesis
      using Cons.IH [OF l, of fieldStart vals colIdx "\<not> inQuote"]
        Cons.IH [OF l, of fieldStart vals colIdx inQuote]
        Cons.IH [OF l, of "i + 1" "vals[colIdx := Some (unquote (slice line fieldStart i))]"
                  "colIdx + 1" inQuote]
        Cons.prems assms sn
      by auto
  qed
qed

lemma row_values_fill:
  "sep \<noteq> DQ \<Longrightarrow>
   row_values line sep ncols = fill (replicate ncols None) 0 (map unquote (raw_fields line sep))"
  using parse_fields_fill [of sep line "[]" line 0 0 "replicate ncols None" ncols 0 False]
  by (simp add: row_values_def raw_fields_def finish_def)

lemma fill_nth:
  "j < length vals \<Longrightarrow>
   fill vals k fs ! j = (if k \<le> j \<and> j < k + length fs then Some (fs ! (j - k)) else vals ! j)"
proof (induction fs arbitrary: vals k)
  case Nil
  then show ?case by auto
next
  case (Cons f fs)
  then show ?case by (auto simp: nth_list_update nth_Cons')
qed

lemma length_fill [simp]: "length (fill vals k fs) = length vals"
  by (induction fs arbitrary: vals k) simp_all

text \<open>
  Claim C10, amended to the two functions it cites: for a field of the line that is handed
  to \<^verbatim>\<open>extractCols\<close> or to the scanner's \<^verbatim>\<open>parseLineSimd\<close> whose bytes begin and end with a double
  quote (at least two bytes), the function yields the field without that one pair of quotes,
  and so does the key of a single-column index; a field of exactly two quotes yields the
  empty string.  The column must be one that the function extracts (at most \<open>maxCol\<close>, below
  the length of the row buffer), and the separator is not the quote.
\<close>

theorem enclosing_quotes_stripped:
  assumes "sep \<noteq> DQ" and "i < length (raw_fields line sep)" and "f = raw_fields line sep ! i"
    and "2 \<le> length f" and "hd f = DQ" and "last f = DQ"
  shows "(int i \<le> maxCol \<longrightarrow> extractCols line sep maxCol ! i = butlast (tl f))
       \<and> (i < ncols \<longrightarrow> row_values line sep ncols ! i = Some (butlast (tl f))
                      \<and> index_key (row_values line sep ncols) [i] = butlast (tl f))
       \<and> (f = [DQ, DQ] \<longrightarrow> butlast (tl f) = [])"
proof -
  have u: "unquote f = butlast (tl f)"
    using assms(4-6) by (rule unquote_quoted)
  have a: "extractCols line sep maxCol ! i = butlast (tl f)" if "int i \<le> maxCol"
    using that assms(1-3) u by (simp add: extractCols_fields)
  have b: "row_values line sep ncols ! i = Some (butlast (tl f))" if "i < ncols"
    using that assms(1-3) u by (simp add: row_values_fill fill_nth)
  have c: "index_key (row_values line sep ncols) [i] = butlast (tl f)" if "i < ncols"
    using b [OF that] that assms(1)
    by (simp add: index_key_def column_value_def row_values_fill)
  show ?thesis using a b c by auto
qed

definition c10_line :: string where
  "c10_line = ''2,'' @ [DQ] @ ''ok'' @ [DQ] @ '','' @ [DQ, DQ]"

lemma c10_fields: "raw_fields c10_line (CHR '','') = [''2'', [DQ] @ ''ok'' @ [DQ], [DQ, DQ]]"
  by (simp add: raw_fields_def c10_line_def DQ_def)

theorem enclosing_quotes_stripped_witness:
  "extractCols c10_line (CHR '','') 2 ! 1 = ''ok''
   \<and> row_values c10_line (CHR '','') 3 ! 1 = Some ''ok''
   \<and> index_key (row_values c10_line (CHR '','') 3) [1] = ''ok''
   \<and> extractCols c10_line (CHR '','') 2 ! 2 = []
   \<and> row_values c10_line (CHR '','') 3 ! 2 = Some []"
  using enclosing_quotes_stripped [of "CHR '',''" 1 c10_line "[DQ] @ ''ok'' @ [DQ]" 2 3]
    enclosing_quotes_stripped [of "CHR '',''" 2 c10_line "[DQ, DQ]" 2 3]
  by (simp add: c10_fields DQ_def)

subsection \<open>Rows on the query side\<close>

text \<open>
  \<open>Executor.runFullScan\<close> and \<open>Executor.runAggregation\<close> take the columns of a row from
  \<open>parseCSVLine\<close>, which is \<open>strings.Split(line, ",")\<close>; the full scan hands it the line with
  the white space trimmed at both ends (\<open>bytes.TrimSpace\<close>, here for the ASCII white space).
\<close>

fun strings_Split :: "string \<Rightarrow> char \<Rightarrow> string list" where
  "strings_Split [] sep = [[]]"
| "strings_Split (c # cs) sep =
     (if c = sep then [] # strings_Split cs sep
      else case strings_Split cs sep of
             [] \<Rightarrow> [[c]]
           | f # fs \<Rightarrow> (c # f) # fs)"

definition parseCSVLine :: "string \<Rightarrow> string list" where
  "parseCSVLine line = strings_Split line (CHR '','')"

definition isSpace :: "char \<Rightarrow> bool" where
  "isSpace c \<longleftrightarrow> c \<in> set [CHR 0x09, CHR 0x0A, CHR 0x0B, CHR 0x0C, CHR 0x0D, CHR 0x20]"

definition TrimSpace :: "string \<Rightarrow> string" where
  "TrimSpace s = rev (dropWhile isSpace (rev (dropWhile isSpace s)))"

text \<open>
  \<open>QueryEngine\<close> takes the row of an index record from the mapped CSV: from the record's
  offset to the next newline byte, without one trailing carriage return, and splits it with
  \<open>extractCols\<close> at commas.
\<close>

definition row_at :: "string \<Rightarrow> nat \<Rightarrow> string" where
  "row_at csvData off =
     (let rowEnd = (case IndexByte (drop off csvData) NL of
                      None \<Rightarrow> length csvData - off
                    | Some i \<Rightarrow> i)
      in trim_cr (slice csvData off (off + rowEnd)))"

definition c10_csv :: string where
  "c10_csv = ''id,note'' @ [NL] @ ''1,'' @ [DQ] @ ''hello'' @ [NL] @ ''world'' @ [DQ, NL]
             @ ''2,'' @ [DQ] @ ''ok'' @ [DQ, NL]"

text \<open>
  Claim C10, as stated, fails for the values that the query side materializes.  The field
  \<open>"ok"\<close> of the row \<open>2,"ok"\<close> keeps its quotes in the columns of \<^verbatim>\<open>Executor.runFullScan\<close>.  The
  field \<open>"hello\nworld"\<close> gives the scanner the key \<open>hello\nworld\<close>, but \<^verbatim>\<open>QueryEngine\<close> cuts the
  row of that record at the newline inside the quotes, and \<^verbatim>\<open>extractCols\<close> returns \<open>"hello\<close> with
  the opening quote.
\<close>

theorem quotes_kept_on_other_paths:
  "raw_fields (''2,'' @ [DQ] @ ''ok'' @ [DQ]) (CHR '','') ! 1 = [DQ] @ ''ok'' @ [DQ]
   \<and> parseCSVLine (TrimSpace (''2,'' @ [DQ] @ ''ok'' @ [DQ, NL])) ! 1 = [DQ] @ ''ok'' @ [DQ]
   \<and> raw_fields (''1,'' @ [DQ] @ ''hello'' @ [NL] @ ''world'' @ [DQ]) (CHR '','') ! 1
       = [DQ] @ ''hello'' @ [NL] @ ''world'' @ [DQ]
   \<and> row_values (''1,'' @ [DQ] @ ''hello'' @ [NL] @ ''world'' @ [DQ]) (CHR '','') 2 ! 1
       = Some (''hello'' @ [NL] @ ''world'')
   \<and> row_at c10_csv 8 = ''1,'' @ [DQ] @ ''hello''
   \<and> extractCols (row_at c10_csv 8) (CHR '','') 1 ! 1 = [DQ] @ ''hello''"
  by code_simp

section \<open>Line numbers of the scanner\<close>

text \<open>
  The scan as a recursion over the list of chunk boundaries: the chunk between two
  consecutive boundaries is processed with the next worker number and with the line number
  that the counts of the chunks before it give.
\<close>

fun scan_rec :: "string \<Rightarrow> char \<Rightarrow> nat list list \<Rightarrow> nat list \<Rightarrow> nat \<Rightarrow> int \<Rightarrow> scan_call list" where
  "scan_rec data sep defs (a # b # rest) wid L =
     (if a < b then processChunk data sep a b wid L defs else [])
     @ scan_rec data sep defs (b # rest) (wid + 1)
         (L + (if a < b then countChunkLines data sep a b else 0))"
| "scan_rec data sep defs [a] wid L = []"
| "scan_rec data sep defs [] wid L = []"

lemma start_lines_nth:
  "i < length ns \<Longrightarrow> start_lines c ns ! i = c + sum_list (take i ns)"
proof (induction ns arbitrary: c i)
  case Nil
  then show ?case by simp
next
  case (Cons n ns)
  then show ?case by (cases i) simp_all
qed

lemma length_boundaries: "1 \<le> W \<Longrightarrow> length (boundaries data startIdx W) = W + 1"
  by (simp add: boundaries_def Let_def)

lemma scan_rec_drop:
  assumes len: "length bs = W + 1"
  shows "j \<le> W \<Longrightarrow>
    concat (map (\<lambda>i. if bs ! i < bs ! (i + 1)
                       then processChunk data sep (bs ! i) (bs ! (i + 1)) i
                              (start_lines 2 (map (\<lambda>i. if bs ! i < bs ! (i + 1)
                                           then countChunkLines data sep (bs ! i) (bs ! (i + 1)) else 0)
                                  [0 ..< W]) ! i) defs
                       else []) [j ..< W])
    = scan_rec data sep defs (drop j bs) j
        (2 + sum_list (map (\<lambda>i. if bs ! i < bs ! (i + 1)
                                   then countChunkLines data sep (bs ! i) (bs ! (i + 1)) else 0)
                          [0 ..< j]))"
proof (induction j rule: inc_induct)
  case base
  have "drop W bs = [bs ! W]"
    using len by (metis Cons_nth_drop_Suc Suc_eq_plus1 drop_all lessI order_refl)
  then show ?case by simp
next
  case (step j)
  let ?cl = "\<lambda>i. if bs ! i < bs ! (i + 1) then countChunkLines data sep (bs ! i) (bs ! (i + 1)) else 0"
  have d: "drop j bs = bs ! j # bs ! (j + 1) # drop (j + 2) bs"
    using len step.hyps
    by (metis Cons_nth_drop_Suc Suc_eq_plus1 add_2_eq_Suc' less_Suc_eq less_trans_Suc not_less_eq)
  have d': "drop (Suc j) bs = bs ! (j + 1) # drop (j + 2) bs"
    using d by (metis drop_Suc list.sel(3) tl_drop)
  have s: "start_lines 2 (map ?cl [0 ..< W]) ! j = 2 + sum_list (map ?cl [0 ..< j])"
    using step.hyps by (simp add: start_lines_nth take_map)
  have u: "[j ..< W] = j # [Suc j ..< W]"
    using step.hyps by (simp add: upt_conv_Cons)
  show ?case
    using step.IH s by (simp add: u d d' add.assoc cong: if_cong)
qed

lemma Scan_rec:
  assumes "1 \<le> W" and "IndexByte data NL = Some idx" and "idx + 1 < length data"
  shows "Scan data sep W defs = scan_rec data sep defs (boundaries data (idx + 1) W) 0 2"
  using scan_rec_drop [OF length_boundaries [OF assms(1)], of 0 data "idx + 1" data sep defs] assms
  by (simp add: Scan_def Let_def cong: if_cong)

subsection \<open>Line numbers of the full scan\<close>

text \<open>
  \<open>bufio.Reader.ReadBytes\<close> on a reader whose remaining bytes are \<open>s\<close>: the bytes up to and
  including the delimiter and what remains, or everything that is left together with
  \<open>io.EOF\<close>.
\<close>

definition ReadBytes :: "string \<Rightarrow> char \<Rightarrow> string \<times> string \<times> bool" where
  "ReadBytes s delim =
     (case IndexByte s delim of
        None \<Rightarrow> (s, [], True)
      | Some i \<Rightarrow> (take (i + 1) s, drop (i + 1) s, False))"

lemma IndexByte_less: "IndexByte s c = Some i \<Longrightarrow> i < length s"
  by (induction s arbitrary: i) (auto split: if_splits)

text \<open>
  The loop of \<open>runFullScan\<close> (the same in \<open>QueryEngine\<close> and in \<open>Executor\<close>): each line read
  advances \<open>lineNum\<close> and is a row at \<open>rowOffset\<close>; the row's overrides are looked up by
  \<open>lineNum\<close>, and \<open>rowOffset,lineNum\<close> is what is printed for it when it passes the filter.
  The list holds \<open>(rowOffset, lineNum)\<close> of every row read, in order.
\<close>

function fullscan_rows :: "string \<Rightarrow> int \<Rightarrow> int \<Rightarrow> (int \<times> int) list" where
  "fullscan_rows rest currentOffset lineNum =
     (case ReadBytes rest NL of
        (line, rest1, eof) \<Rightarrow>
          if eof \<and> line = [] then []
          else (currentOffset, lineNum + 1)
               # fullscan_rows rest1 (currentOffset + int (length line)) (lineNum + 1))"
  by pat_completeness auto
termination
  by (relation "measure (\<lambda>(rest, currentOffset, lineNum). length rest)")
     (auto simp: ReadBytes_def split: option.splits dest: IndexByte_less)

text \<open>The header line is read first; a file without a newline ends the scan with \<open>io.EOF\<close>.\<close>

definition runFullScan_lines :: "string \<Rightarrow> error + (int \<times> int) list" where
  "runFullScan_lines data =
     (case ReadBytes data NL of
        (headerLine, rest, eof) \<Rightarrow>
          if eof then Inl EOF else Inr (fullscan_rows rest (int (length headerLine)) 1))"

subsection \<open>A record with a newline inside quotes\<close>

text \<open>The file of scenario S6: a header, a record whose second field spans two lines, a record.\<close>

definition s6_csv :: string where
  "s6_csv = ''id,note'' @ [NL] @ ''1,'' @ [DQ] @ ''hello'' @ [NL] @ ''world'' @ [DQ, NL]
            @ ''2,'' @ [DQ] @ ''ok'' @ [DQ, NL]"

definition positions :: "scan_call list \<Rightarrow> (int \<times> int) list" where
  "positions calls = map (\<lambda>c. (row_offset c, row_line c)) calls"

lemma positions_simps [simp]:
  "positions [] = []"
  "positions (xs @ ys) = positions xs @ positions ys"
  "positions (c # cs) = (row_offset c, row_line c) # positions cs"
  "row_offset (parseLineSimd lb sep off wid defs n lineNum) = off"
  "row_line (parseLineSimd lb sep off wid defs n lineNum) = lineNum"
  by (simp_all add: positions_def parseLineSimd_def)

lemma s6_len: "length s6_csv = 31"
  by (simp add: s6_csv_def)

lemma s6_hdr: "IndexByte s6_csv NL = Some 7"
  by code_simp

lemma s6_b1: "8 \<le> h \<Longrightarrow> h < 24 \<Longrightarrow> findSafeRecordBoundary s6_csv h = 24"
proof -
  have "\<forall>h\<in>set [8..<24]. findSafeRecordBoundary s6_csv h = 24"
    by code_simp
  then show "8 \<le> h \<Longrightarrow> h < 24 \<Longrightarrow> findSafeRecordBoundary s6_csv h = 24"
    unfolding set_upt by (meson atLeastLessThan_iff)
qed

lemma s6_b2: "24 \<le> h \<Longrightarrow> h < 31 \<Longrightarrow> findSafeRecordBoundary s6_csv h = 31"
proof -
  have "\<forall>h\<in>set [24..<31]. findSafeRecordBoundary s6_csv h = 31"
    by code_simp
  then show "24 \<le> h \<Longrightarrow> h < 31 \<Longrightarrow> findSafeRecordBoundary s6_csv h = 31"
    unfolding set_upt by (meson atLeastLessThan_iff)
qed

lemma s6_sl1: "take 16 (drop 8 s6_csv) = ''1,'' @ [DQ] @ ''hello'' @ [NL] @ ''world'' @ [DQ, NL]"
  by code_simp
lemma s6_sl2: "take 7 (drop 24 s6_csv) = ''2,'' @ [DQ] @ ''ok'' @ [DQ, NL]"
  by code_simp
lemma s6_sl3: "take 23 (drop 8 s6_csv) = ''1,'' @ [DQ] @ ''hello'' @ [NL] @ ''world'' @ [DQ, NL]
            @ ''2,'' @ [DQ] @ ''ok'' @ [DQ, NL]"
  by code_simp

lemma s6_c1: "sep \<noteq> NL \<Longrightarrow> countChunkLines s6_csv sep 8 24 = 1"
  by (simp add: countChunkLines_def s6_len s6_sl1 isNewline_def DQ_def NL_def slice_def Let_def)

lemma s6_c2: "sep \<noteq> NL \<Longrightarrow> countChunkLines s6_csv sep 24 31 = 1"
  by (simp add: countChunkLines_def s6_len s6_sl2 isNewline_def DQ_def NL_def slice_def Let_def)

lemma s6_c3: "sep \<noteq> NL \<Longrightarrow> countChunkLines s6_csv sep 8 31 = 2"
  by (simp add: countChunkLines_def s6_len s6_sl3 isNewline_def DQ_def NL_def slice_def Let_def)

lemma s6_p1: "sep \<noteq> NL \<Longrightarrow> positions (processChunk s6_csv sep 8 24 wid L defs) = [(8, L)]"
  by (simp add: processChunk_def s6_len s6_sl1 isNewline_def DQ_def NL_def CR_def slice_def
      trim_cr_def Let_def)

lemma s6_p2: "sep \<noteq> NL \<Longrightarrow> positions (processChunk s6_csv sep 24 31 wid L defs) = [(24, L)]"
  by (simp add: processChunk_def s6_len s6_sl2 isNewline_def DQ_def NL_def CR_def slice_def
      trim_cr_def Let_def)

lemma s6_p3:
  "sep \<noteq> NL \<Longrightarrow> positions (processChunk s6_csv sep 8 31 wid L defs) = [(8, L), (24, L + 1)]"
  by (simp add: processChunk_def s6_len s6_sl3 isNewline_def DQ_def NL_def CR_def slice_def
      trim_cr_def Let_def)

lemma two_valued_sorted:
  "sorted xs \<Longrightarrow> set xs \<subseteq> {a, b} \<Longrightarrow> a < b
   \<Longrightarrow> \<exists>k l. xs = replicate k a @ replicate l (b::nat)"
proof (induction xs)
  case Nil
  then show ?case by simp
next
  case (Cons x xs)
  then obtain k l where kl: "xs = replicate k a @ replicate l b" by auto
  show ?case
  proof (cases "x = a")
    case True
    then have "x # xs = replicate (Suc k) a @ replicate l b" using kl by simp
    then show ?thesis by blast
  next
    case False
    then have xb: "x = b" using Cons.prems by auto
    have "y = b" if "y \<in> set xs" for y
    proof -
      have "b \<le> y" using Cons.prems(1) xb that by simp
      moreover have "y = a \<or> y = b" using Cons.prems(2) that by auto
      ultimately show ?thesis using Cons.prems(3) by auto
    qed
    then have "\<forall>y\<in>set xs. y = b" by blast
    then have "xs = replicate (length xs) b" by (simp add: replicate_length_same)
    then have "x # xs = replicate 0 a @ replicate (Suc (length xs)) b" using xb by simp
    then show ?thesis by blast
  qed
qed

lemma s6_boundaries:
  assumes "1 \<le> W"
  shows "\<exists>k l. boundaries s6_csv 8 W = 8 # replicate k 24 @ replicate l 31 @ [31]"
proof -
  let ?f = "\<lambda>i. let hint = 8 + i * ((length s6_csv - 8) div W)
                in if hint < length s6_csv then findSafeRecordBoundary s6_csv hint
                   else length s6_csv"
  let ?g = "\<lambda>h::nat. if h < 24 then 24 else (31::nat)"
  have f: "?f i = ?g (8 + i * (23 div W))" for i
  proof -
    let ?h = "8 + i * (23 div W)"
    consider "?h < 24" | "24 \<le> ?h" "?h < 31" | "31 \<le> ?h" by linarith
    then show ?thesis
    proof cases
      case 1
      then show ?thesis using s6_b1 [of ?h] by (simp add: s6_len Let_def)
    next
      case 2
      then show ?thesis using s6_b2 [of ?h] by (simp add: s6_len Let_def)
    next
      case 3
      then show ?thesis by (simp add: s6_len Let_def)
    qed
  qed
  have m: "?g (8 + x * (23 div W)) \<le> ?g (8 + y * (23 div W))" if "x < y" for x y
  proof -
    define u v where "u = x * (23 div W)" and "v = y * (23 div W)"
    have "u \<le> v" unfolding u_def v_def using that by (intro mult_le_mono1) simp
    then have "?g (8 + u) \<le> ?g (8 + v)" by auto
    then show ?thesis unfolding u_def v_def .
  qed
  have "sorted_wrt (\<lambda>x y. ?g (8 + x * (23 div W)) \<le> ?g (8 + y * (23 div W))) [1 ..< W]"
    by (rule sorted_wrt_mono_rel [OF _ sorted_wrt_upt]) (use m in blast)
  then have "sorted (map ?f [1 ..< W])"
    unfolding f sorted_map .
  moreover have "set (map ?f [1 ..< W]) \<subseteq> {24, 31}"
    unfolding f by auto
  ultimately obtain k l where "map ?f [1 ..< W] = replicate k 24 @ replicate l 31"
    using two_valued_sorted [of "map ?f [1 ..< W]" 24 31] by auto
  then have "boundaries s6_csv 8 W = 8 # replicate k 24 @ replicate l 31 @ [31]"
    by (simp add: boundaries_def s6_len cong: if_cong)
  then show ?thesis by blast
qed

lemma s6_full_scan: "runFullScan_lines s6_csv = Inr [(8, 2), (17, 3), (24, 4)]"
  by code_simp

lemma s6_rec_end: "scan_rec s6_csv sep defs (31 # replicate l 31) wid L = []"
  by (induction l arbitrary: wid L) simp_all

lemma s6_rec_mid:
  "sep \<noteq> NL \<Longrightarrow>
   positions (scan_rec s6_csv sep defs (24 # replicate k 24 @ replicate l 31 @ [31]) wid L)
   = [(24, L)]"
proof (induction k arbitrary: wid L)
  case 0
  have "replicate l 31 @ [31] = 31 # replicate l (31::nat)"
    by (simp add: replicate_append_same)
  then show ?case using 0 by (simp add: s6_p2 s6_rec_end)
next
  case (Suc k)
  then show ?case by simp
qed

text \<open>
  Claim C5. On the file of scenario S6 the scanner, with any number of workers, any
  separator other than the newline and any index definitions, calls the handler exactly
  twice, for the records at byte offsets 8 and 24, and the line number it passes with the
  second record is 3, not the 4 of the claim. The full scan of the same file numbers the row
  at offset 24 as line 4, and it is by that number that it looks up the overrides of a row.
\<close>

theorem s6_scan_lines:
  assumes "1 \<le> W" and "sep \<noteq> NL"
  shows "map (\<lambda>c. (row_offset c, row_line c)) (Scan s6_csv sep W indexDefs) = [(8, 2), (24, 3)]
         \<and> runFullScan_lines s6_csv = Inr [(8, 2), (17, 3), (24, 4)]"
proof -
  obtain k l where b: "boundaries s6_csv 8 W = 8 # replicate k 24 @ replicate l 31 @ [31]"
    using s6_boundaries [OF assms(1)] by blast
  have e: "replicate l 31 @ [31] = 31 # replicate l (31::nat)"
    by (simp add: replicate_append_same)
  have "positions (scan_rec s6_csv sep indexDefs (boundaries s6_csv 8 W) 0 2) = [(8, 2), (24, 3)]"
  proof (cases k)
    case 0
    then show ?thesis using assms(2) by (simp add: b e s6_p3 s6_rec_end)
  next
    case (Suc k')
    then show ?thesis
      using s6_rec_mid [OF assms(2), of indexDefs k' l 1 3] assms(2) by (simp add: b s6_p1 s6_c1)
  qed
  then have "map (\<lambda>c. (row_offset c, row_line c)) (Scan s6_csv sep W indexDefs)
             = [(8, 2), (24, 3)]"
    using Scan_rec [OF assms(1) s6_hdr, of sep indexDefs] by (simp add: s6_len positions_def)
  then show ?thesis using s6_full_scan by simp
qed

theorem s6_scan_lines_witness:
  "map (\<lambda>c. (row_offset c, row_line c)) (Scan s6_csv (CHR '','') 4 [[0], [1]]) = [(8, 2), (24, 3)]
   \<and> runFullScan_lines s6_csv = Inr [(8, 2), (17, 3), (24, 4)]"
  using s6_scan_lines [of 4 "CHR '',''" "[[0], [1]]"] by (simp add: NL_def)

section \<open>External sorter\<close>

text \<open>
  The sorter of one index. A chunk file is held by its bytes; creating and opening the
  temporary files is taken to succeed. The bloom filter, when there is one, receives the
  distinct keys during the merge.
\<close>

record Sorter =
  chunkSize :: int
  chunkFiles :: "string list"
  totalRecords :: int
  memBuffer :: "IndexRecord list"
  chunkDistincts :: "int list"
  bloom_s :: "BloomFilter option"

definition NewSorter :: "int \<Rightarrow> BloomFilter option \<Rightarrow> Sorter" where
  "NewSorter memoryLimit bl =
     (let chunkSize = go_quot memoryLimit 100
      in \<lparr>chunkSize = (if chunkSize < 1000 then 1000 else chunkSize),
          chunkFiles = [], totalRecords = 0, memBuffer = [], chunkDistincts = [],
          bloom_s = bl\<rparr>)"

text \<open>The comparison that \<open>flushChunk\<close> hands to \<open>slices.SortFunc\<close>.\<close>

definition flushChunk_cmp :: "IndexRecord \<Rightarrow> IndexRecord \<Rightarrow> int" where
  "flushChunk_cmp a b =
     (let cmp = bytes_Compare (Key a) (Key b)
      in if cmp \<noteq> 0 then cmp
         else if sint (Offset a) < sint (Offset b) then - 1
         else if sint (Offset b) < sint (Offset a) then 1
         else 0)"

text \<open>The count of key changes along a list of records, as both loops over sorted records do.\<close>

fun count_distinct :: "IndexRecord list \<Rightarrow> bool \<Rightarrow> string \<Rightarrow> int \<Rightarrow> int" where
  "count_distinct [] first lastKey n = n"
| "count_distinct (rec # recs) first lastKey n =
     (if first \<or> Key rec \<noteq> lastKey then count_distinct recs False (Key rec) (wrap64 (n + 1))
      else count_distinct recs False lastKey n)"

text \<open>
  \<open>flushChunk\<close>, with the library sort as the parameter \<open>sortFunc\<close> and the LZ4 frame
  compressor as \<open>lz4c\<close>.
\<close>

definition flushChunk ::
  "(IndexRecord list \<Rightarrow> (IndexRecord \<Rightarrow> IndexRecord \<Rightarrow> int) \<Rightarrow> IndexRecord list) \<Rightarrow> (string \<Rightarrow> string)
   \<Rightarrow> Sorter \<Rightarrow> Sorter" where
  "flushChunk sortFunc lz4c s =
     (if memBuffer s = [] then s
      else
        let sorted_buf = sortFunc (memBuffer s) flushChunk_cmp;
            distinctCount = count_distinct sorted_buf True (replicate 64 NUL) 0
        in s\<lparr>chunkFiles := chunkFiles s @ [lz4c (WriteBatchRecords sorted_buf)],
             chunkDistincts := chunkDistincts s @ [distinctCount],
             memBuffer := []\<rparr>)"

definition Sorter_Add ::
  "(IndexRecord list \<Rightarrow> (IndexRecord \<Rightarrow> IndexRecord \<Rightarrow> int) \<Rightarrow> IndexRecord list) \<Rightarrow> (string \<Rightarrow> string)
   \<Rightarrow> Sorter \<Rightarrow> IndexRecord \<Rightarrow> Sorter" where
  "Sorter_Add sortFunc lz4c s rec =
     (let s1 = s\<lparr>memBuffer := memBuffer s @ [rec],
                  totalRecords := wrap64 (totalRecords s + 1)\<rparr>
      in if chunkSize s1 \<le> int (length (memBuffer s1)) then flushChunk sortFunc lz4c s1 else s1)"

subsection \<open>The heap of the merge\<close>

record mergeItem =
  record_i :: IndexRecord
  source :: nat

definition Less :: "mergeItem \<Rightarrow> mergeItem \<Rightarrow> bool" where
  "Less m other =
     (let cmp = bytes_Compare (Key (record_i m)) (Key (record_i other))
      in if cmp \<noteq> 0 then cmp < 0
         else sint (Offset (record_i m)) < sint (Offset (record_i other)))"

definition Swap :: "mergeItem list \<Rightarrow> nat \<Rightarrow> nat \<Rightarrow> mergeItem list" where
  "Swap h i j = h[i := h ! j, j := h ! i]"

text \<open>
  \<open>up\<close> and \<open>down\<close>. Go's \<open>(j - 1) / 2\<close> is \<open>0\<close> for \<open>j = 0\<close>, as the division truncates; the
  indices stay below the length of the heap in every call that the merge makes.
\<close>

function up :: "mergeItem list \<Rightarrow> nat \<Rightarrow> mergeItem list" where
  "up h j =
     (let i = (j - 1) div 2
      in if i = j \<or> \<not> Less (h ! j) (h ! i) then h else up (Swap h i j) i)"
  by pat_completeness auto
termination
  by (relation "measure (\<lambda>(h, j). j)") auto

function down :: "mergeItem list \<Rightarrow> nat \<Rightarrow> nat \<Rightarrow> mergeItem list" where
  "down h i n =
     (let j1 = 2 * i + 1
      in if n \<le> j1 then h
         else
           let j = (if j1 + 1 < n \<and> Less (h ! (j1 + 1)) (h ! j1) then j1 + 1 else j1)
           in if \<not> Less (h ! j) (h ! i) then h else down (Swap h j i) j n)"
  by pat_completeness auto
termination
  by (relation "measure (\<lambda>(h, i, n). n - i)") (auto simp: Let_def)

declare up.simps [simp del]
declare down.simps [simp del]

definition Push :: "mergeItem list \<Rightarrow> mergeItem \<Rightarrow> mergeItem list" where
  "Push h x = up (h @ [x]) (length (h @ [x]) - 1)"

definition Pop :: "mergeItem list \<Rightarrow> (mergeItem \<times> mergeItem list) option" where
  "Pop h =
     (if h = [] then None
      else
        let n = length h;
            x = h ! 0;
            old = h[0 := h ! (n - 1)]
        in Some (x, down (take (n - 1) old) 0 (n - 1)))"

lemma length_Swap [simp]: "length (Swap h i j) = length h"
  by (simp add: Swap_def)

lemma length_up [simp]: "length (up h j) = length h"
  by (induction h j rule: up.induct) (subst up.simps, simp add: Let_def)

lemma length_down [simp]: "length (down h i n) = length h"
  by (induction h i n rule: down.induct) (subst down.simps, simp add: Let_def)

subsection \<open>The merge\<close>

text \<open>
  The reader of a chunk file is the bytes that remain to be read; a chunk that the LZ4
  library cannot decode gives no record, since a failed \<open>ReadRecord\<close> only ends its chunk.
\<close>

definition open_chunk :: "(string \<Rightarrow> string option) \<Rightarrow> string \<Rightarrow> string" where
  "open_chunk lz4d f = (case lz4d f of None \<Rightarrow> [] | Some raw \<Rightarrow> raw)"

record merge_state =
  heap :: "mergeItem list"
  readers :: "string list"
  writer :: BlockWriter
  distinctCount :: int
  lastKey :: string
  firstRecord :: bool
  bloom_m :: "BloomFilter option"
  mergedRecords :: int

text \<open>The first record of every chunk, in the order of the chunks.\<close>

fun first_records :: "string list \<Rightarrow> nat \<Rightarrow> mergeItem list \<times> string list" where
  "first_records [] i = ([], [])"
| "first_records (rd # rds) i =
     (case first_records rds (i + 1) of
        (h, rest) \<Rightarrow>
          (case ReadRecord rd of
             Inl e \<Rightarrow> (h, rd # rest)
           | Inr (rec, rd1) \<Rightarrow> (\<lparr>record_i = rec, source = i\<rparr> # h, rd1 # rest)))"

text \<open>\<open>for i := n/2 - 1; i >= 0; i-- { h.down(i, n) }\<close>, counted by \<open>i + 1\<close>.\<close>

fun init_heap :: "mergeItem list \<Rightarrow> nat \<Rightarrow> nat \<Rightarrow> mergeItem list" where
  "init_heap h n 0 = h"
| "init_heap h n (Suc i) = init_heap (down h i n) n i"

definition note_key :: "merge_state \<Rightarrow> IndexRecord \<Rightarrow> merge_state option" where
  "note_key st rec =
     (if firstRecord st \<or> Key rec \<noteq> lastKey st then
        (case (case bloom_m st of
                 None \<Rightarrow> Some None
               | Some bf \<Rightarrow> map_option Some (Add bf (TrimRight0 (Key rec)))) of
           None \<Rightarrow> None
         | Some bl \<Rightarrow>
             Some (st\<lparr>distinctCount := wrap64 (distinctCount st + 1), bloom_m := bl,
                      lastKey := Key rec, firstRecord := False\<rparr>))
      else Some st)"

lemma sum_length_update:
  "i < length xs \<Longrightarrow> length y < length (xs ! i)
   \<Longrightarrow> sum_list (map length (xs[i := y])) < sum_list (map length xs)"
proof (induction xs arbitrary: i)
  case Nil
  then show ?case by simp
next
  case (Cons x xs)
  then show ?case by (cases i) auto
qed

function merge_loop :: "(string \<Rightarrow> string) \<Rightarrow> merge_state \<Rightarrow> error + merge_state" where
  "merge_loop lz4c st =
     (case Pop (heap st) of
        None \<Rightarrow> Inr st
      | Some (item, h1) \<Rightarrow>
          (case note_key st (record_i item) of
             None \<Rightarrow> Inl Panic
           | Some st1 \<Rightarrow>
               let st2 = st1\<lparr>writer := WriteRecord lz4c (writer st1) (record_i item),
                              mergedRecords := wrap64 (mergedRecords st1 + 1)\<rparr>
               in if length (readers st) \<le> source item then Inl Panic
                  else case ReadRecord (readers st ! source item) of
                         Inl e \<Rightarrow> merge_loop lz4c (st2\<lparr>heap := h1\<rparr>)
                       | Inr (nextRec, rest) \<Rightarrow>
                           merge_loop lz4c
                             (st2\<lparr>heap := Push h1 \<lparr>record_i = nextRec, source = source item\<rparr>,
                                   readers := (readers st)[source item := rest]\<rparr>)))"
  by pat_completeness auto
termination
proof (relation "measure (\<lambda>(lz4c, st). length (heap st) + sum_list (map length (readers st)))",
    goal_cases)
  case 1
  show ?case by simp
next
  case (2 lz4c st x2 item h1 st1 st2 e)
  then show ?case
    by (auto simp: Pop_def Let_def note_key_def split: if_splits option.splits)
next
  case (3 lz4c st x2 item h1 st1 st2 x nextRec rest)
  have "length (heap st) \<noteq> 0" and h1: "length h1 = length (heap st) - 1"
    using 3(1,2) by (auto simp: Pop_def Let_def split: if_splits)
  moreover have "length rest < length (readers st ! source item)"
    using 3 by (auto simp: ReadRecord_def RecordSize_def split: if_splits)
  then have "sum_list (map length ((readers st)[source item := rest]))
             < sum_list (map length (readers st))"
    using 3(5) by (intro sum_length_update) simp_all
  moreover have "readers st2 = readers st" "heap st2 = heap st"
    using 3(3,4) by (auto simp: note_key_def split: if_splits option.splits)
  ultimately show ?case by (simp add: Push_def)
qed

declare merge_loop.simps [simp del]

definition kWayMerge ::
  "(string \<Rightarrow> string) \<Rightarrow> (string \<Rightarrow> string option) \<Rightarrow> Sorter
   \<Rightarrow> error + (int \<times> cidx_file \<times> BloomFilter option)" where
  "kWayMerge lz4c lz4d s =
     (case first_records (map (open_chunk lz4d) (chunkFiles s)) 0 of
        (h0, rds) \<Rightarrow>
          let n = length h0;
              h = init_heap h0 n (n div 2)
          in case merge_loop lz4c
                    \<lparr>heap = h, readers = rds, writer = NewBlockWriter, distinctCount = 0,
                     lastKey = replicate 64 NUL, firstRecord = True, bloom_m = bloom_s s,
                     mergedRecords = 0\<rparr> of
               Inl e \<Rightarrow> Inl e
             | Inr st \<Rightarrow> Inr (distinctCount st, Close lz4c (writer st), bloom_m st))"

text \<open>\<open>Finalize\<close>: with no chunk at all the output file is created empty.\<close>

definition Finalize ::
  "(IndexRecord list \<Rightarrow> (IndexRecord \<Rightarrow> IndexRecord \<Rightarrow> int) \<Rightarrow> IndexRecord list) \<Rightarrow> (string \<Rightarrow> string)
   \<Rightarrow> (string \<Rightarrow> string option) \<Rightarrow> Sorter \<Rightarrow> error + (int \<times> cidx_file \<times> BloomFilter option)" where
  "Finalize sortFunc lz4c lz4d s =
     (let s1 = flushChunk sortFunc lz4c s
      in if chunkFiles s1 = [] then Inr (0, \<lparr>body = [], footer = None\<rparr>, bloom_s s1)
         else kWayMerge lz4c lz4d s1)"

text \<open>Reading a whole index: the blocks of the directory in order, the records of each in order.\<close>

fun read_blocks ::
  "(string \<Rightarrow> string option) \<Rightarrow> BlockReader \<Rightarrow> BlockMeta list \<Rightarrow> error + IndexRecord list" where
  "read_blocks lz4d br [] = Inr []"
| "read_blocks lz4d br (meta # metas) =
     (case ReadBlock lz4d br meta of
        Inl e \<Rightarrow> Inl e
      | Inr recs \<Rightarrow>
          (case read_blocks lz4d br metas of
             Inl e \<Rightarrow> Inl e
           | Inr more_recs \<Rightarrow> Inr (recs @ more_recs)))"

definition decode_cidx :: "(string \<Rightarrow> string option) \<Rightarrow> cidx_file \<Rightarrow> error + IndexRecord list" where
  "decode_cidx lz4d f =
     (case NewBlockReader f of
        Inl e \<Rightarrow> Inl e
      | Inr br \<Rightarrow> read_blocks lz4d br (Footer br))"

section \<open>The sorter writes a sorted index\<close>

subsection \<open>The order of the records\<close>

definition item_key :: "mergeItem \<Rightarrow> string \<times> int" where
  "item_key m = sort_key (record_i m)"

lemma Less_iff: "Less a b \<longleftrightarrow> item_key a < item_key b"
  by (auto simp: Less_def item_key_def sort_key_def bytes_Compare_def Let_def)

lemma flushChunk_cmp_iff: "flushChunk_cmp a b \<le> 0 \<longleftrightarrow> sort_key a \<le> sort_key b"
  by (auto simp: flushChunk_cmp_def sort_key_def bytes_Compare_def Let_def)

subsection \<open>The heap order\<close>

definition heap_from :: "mergeItem list \<Rightarrow> nat \<Rightarrow> nat \<Rightarrow> bool" where
  "heap_from h n l \<longleftrightarrow>
     (\<forall>j<n. 0 < j \<and> l \<le> (j - 1) div 2 \<longrightarrow> item_key (h ! ((j - 1) div 2)) \<le> item_key (h ! j))"

definition down_inv :: "mergeItem list \<Rightarrow> nat \<Rightarrow> nat \<Rightarrow> nat \<Rightarrow> bool" where
  "down_inv h n l i \<longleftrightarrow>
     (\<forall>j<n. 0 < j \<and> l \<le> (j - 1) div 2 \<and> (j - 1) div 2 \<noteq> i
        \<longrightarrow> item_key (h ! ((j - 1) div 2)) \<le> item_key (h ! j))
     \<and> (0 < i \<and> l \<le> (i - 1) div 2
        \<longrightarrow> (\<forall>j<n. 0 < j \<and> (j - 1) div 2 = i
               \<longrightarrow> item_key (h ! ((i - 1) div 2)) \<le> item_key (h ! j)))"

definition up_inv :: "mergeItem list \<Rightarrow> nat \<Rightarrow> nat \<Rightarrow> bool" where
  "up_inv h n j \<longleftrightarrow>
     (\<forall>c<n. 0 < c \<and> c \<noteq> j \<longrightarrow> item_key (h ! ((c - 1) div 2)) \<le> item_key (h ! c))
     \<and> (0 < j \<longrightarrow> (\<forall>c<n. 0 < c \<and> (c - 1) div 2 = j
               \<longrightarrow> item_key (h ! ((j - 1) div 2)) \<le> item_key (h ! c)))"

lemma child_iff: "0 < j \<Longrightarrow> (j - 1) div 2 = i \<longleftrightarrow> j = 2 * i + 1 \<or> j = 2 * i + (2::nat)"
  by arith

lemma parent_less: "0 < j \<Longrightarrow> (j - 1) div 2 < (j::nat)"
  by arith

lemma Swap_nth:
  "i < length h \<Longrightarrow> j < length h \<Longrightarrow>
   Swap h i j ! x = (if x = j then h ! i else if x = i then h ! j else h ! x)"
  by (auto simp: Swap_def nth_list_update)

lemma mset_Swap: "i < length h \<Longrightarrow> j < length h \<Longrightarrow> mset (Swap h i j) = mset h"
  by (simp add: Swap_def mset_swap)

lemma down_heap:
  "n \<le> length h \<Longrightarrow> down_inv h n l i \<Longrightarrow> heap_from (down h i n) n l"
proof (induction h i n rule: down.induct)
  case (1 h i n)
  let ?j1 = "2 * i + 1"
  show ?case
  proof (cases "n \<le> ?j1")
    case True
    have "heap_from h n l"
      unfolding heap_from_def
    proof (intro allI impI)
      fix j assume j: "j < n" "0 < j \<and> l \<le> (j - 1) div 2"
      then have "(j - 1) div 2 \<noteq> i" using True by arith
      then show "item_key (h ! ((j - 1) div 2)) \<le> item_key (h ! j)"
        using "1.prems"(2) j by (simp add: down_inv_def)
    qed
    then show ?thesis using True by (subst down.simps) (simp add: Let_def)
  next
    case False
    define j where "j = (if ?j1 + 1 < n \<and> Less (h ! (?j1 + 1)) (h ! ?j1) then ?j1 + 1 else ?j1)"
    have jn: "j < n" "i < j" "i < n" "(j - 1) div 2 = i" "0 < j"
      using False by (auto simp: j_def)
    have d: "down h i n = (if Less (h ! j) (h ! i) then down (Swap h j i) j n else h)"
      using False by (subst down.simps) (simp add: Let_def j_def)
    have jmin: "item_key (h ! j) \<le> item_key (h ! c)" if "c < n" "0 < c" "(c - 1) div 2 = i" for c
    proof -
      have "c = ?j1 \<or> c = ?j1 + 1" using that child_iff [of c i] by auto
      then show ?thesis using that by (auto simp: j_def Less_iff)
    qed
    show ?thesis
    proof (cases "Less (h ! j) (h ! i)")
      case nl: False
      have "heap_from h n l"
        unfolding heap_from_def
      proof (intro allI impI)
        fix c assume c: "c < n" "0 < c \<and> l \<le> (c - 1) div 2"
        show "item_key (h ! ((c - 1) div 2)) \<le> item_key (h ! c)"
        proof (cases "(c - 1) div 2 = i")
          case True
          then show ?thesis using jmin [of c] c nl by (auto simp: Less_iff)
        next
          case False
          then show ?thesis using "1.prems"(2) c by (simp add: down_inv_def)
        qed
      qed
      then show ?thesis
        using nl by (simp add: d)
    next
      case ls: True
      let ?h = "Swap h j i"
      have len: "j < length h" "i < length h" using jn "1.prems"(1) by auto
      have nth: "?h ! x = (if x = i then h ! j else if x = j then h ! i else h ! x)" for x
        by (rule Swap_nth [OF len])
      have "down_inv ?h n l j"
        unfolding down_inv_def
      proof (intro conjI allI impI)
        fix c assume c: "c < n" "0 < c \<and> l \<le> (c - 1) div 2 \<and> (c - 1) div 2 \<noteq> j"
        let ?p = "(c - 1) div 2"
        have pc: "?p < c" using c parent_less by auto
        show "item_key (?h ! ?p) \<le> item_key (?h ! c)"
        proof (cases "?p = i")
          case True
          then have "item_key (h ! j) \<le> item_key (h ! c)" using jmin [of c] c by auto
          moreover have "item_key (h ! j) \<le> item_key (h ! i)" using ls by (simp add: Less_iff)
          ultimately show ?thesis using True pc by (auto simp: nth)
        next
          case False
          show ?thesis
          proof (cases "c = i")
            case True
            then have "0 < i" "l \<le> (i - 1) div 2" using c by auto
            then have "item_key (h ! ((i - 1) div 2)) \<le> item_key (h ! j)"
              using "1.prems"(2) jn by (auto simp: down_inv_def)
            moreover have "(i - 1) div 2 \<noteq> i" "(i - 1) div 2 \<noteq> j"
              using \<open>0 < i\<close> jn by arith+
            ultimately show ?thesis using True by (simp add: nth)
          next
            case ci: False
            have "c \<noteq> j" using False jn by auto
            moreover have "item_key (h ! ?p) \<le> item_key (h ! c)"
              using "1.prems"(2) c False by (auto simp: down_inv_def)
            ultimately show ?thesis using c ci False by (simp add: nth)
          qed
        qed
      next
        fix c assume a: "0 < j \<and> l \<le> (j - 1) div 2" and c: "c < n" "0 < c \<and> (c - 1) div 2 = j"
        have "c \<noteq> i" "c \<noteq> j" using c jn by arith+
        moreover have "item_key (h ! j) \<le> item_key (h ! c)"
        proof -
          have "l \<le> (c - 1) div 2" "(c - 1) div 2 \<noteq> i" using a c jn by simp_all
          then have "item_key (h ! ((c - 1) div 2)) \<le> item_key (h ! c)"
            using "1.prems"(2) c unfolding down_inv_def by blast
          then show ?thesis using c by simp
        qed
        moreover have "?h ! ((j - 1) div 2) = h ! j" "?h ! c = h ! c"
          using jn calculation(1,2) by (simp_all add: nth)
        ultimately show "item_key (?h ! ((j - 1) div 2)) \<le> item_key (?h ! c)"
          by simp
      qed
      then have "heap_from (down ?h j n) n l"
        using "1.IH" [of ?j1 j] False ls "1.prems"(1) by (simp add: j_def)
      then show ?thesis
        using ls by (simp add: d)
    qed
  qed
qed

lemma down_mset: "n \<le> length h \<Longrightarrow> mset (down h i n) = mset h"
proof (induction h i n rule: down.induct)
  case (1 h i n)
  let ?j1 = "2 * i + 1"
  show ?case
  proof (cases "n \<le> ?j1")
    case True
    then show ?thesis by (subst down.simps) (simp add: Let_def)
  next
    case False
    define j where "j = (if ?j1 + 1 < n \<and> Less (h ! (?j1 + 1)) (h ! ?j1) then ?j1 + 1 else ?j1)"
    have jn: "j < n" "i < n" using False by (auto simp: j_def)
    have d: "down h i n = (if Less (h ! j) (h ! i) then down (Swap h j i) j n else h)"
      using False by (subst down.simps) (simp add: Let_def j_def)
    show ?thesis
    proof (cases "Less (h ! j) (h ! i)")
      case False
      then show ?thesis by (simp add: d)
    next
      case True
      have "mset (down (Swap h j i) j n) = mset (Swap h j i)"
        using "1.IH" [of ?j1 j] \<open>\<not> n \<le> ?j1\<close> True "1.prems" by (simp add: j_def)
      then show ?thesis
        using True jn "1.prems" by (simp add: d mset_Swap)
    qed
  qed
qed

lemma up_heap:
  "j < length h \<Longrightarrow> up_inv h (length h) j \<Longrightarrow> heap_from (up h j) (length h) 0"
proof (induction h j rule: up.induct)
  case (1 h j)
  define i where "i = (j - 1) div 2"
  let ?n = "length h"
  have u: "up h j = (if i = j \<or> \<not> Less (h ! j) (h ! i) then h else up (Swap h i j) i)"
    by (subst up.simps) (simp add: Let_def i_def)
  have pi: "(c - 1) div 2 = i \<longleftrightarrow> (c - 1) div 2 = (j - 1) div 2" for c
    by (simp add: i_def)
  show ?case
  proof (cases "i = j \<or> \<not> Less (h ! j) (h ! i)")
    case True
    have "heap_from h ?n 0"
      unfolding heap_from_def
    proof (intro allI impI)
      fix c assume c: "c < ?n" "0 < c \<and> 0 \<le> (c - 1) div 2"
      show "item_key (h ! ((c - 1) div 2)) \<le> item_key (h ! c)"
      proof (cases "c = j")
        case cj: True
        then have "i \<noteq> j" using c parent_less [of j] by (auto simp: i_def)
        then show ?thesis using True cj by (auto simp: Less_iff i_def)
      next
        case False
        then show ?thesis using "1.prems"(2) c by (simp add: up_inv_def)
      qed
    qed
    then show ?thesis using True by (auto simp: u)
  next
    case False
    then have ij: "i \<noteq> j" and ls: "Less (h ! j) (h ! i)" by auto
    have j0: "0 < j" "i < j" using ij unfolding i_def by arith+
    let ?h = "Swap h i j"
    have len: "i < length h" "j < length h" using j0 "1.prems"(1) by auto
    have nth: "?h ! x = (if x = j then h ! i else if x = i then h ! j else h ! x)" for x
      by (rule Swap_nth [OF len])
    have lt: "item_key (h ! j) \<le> item_key (h ! i)" using ls by (simp add: Less_iff)
    have "up_inv ?h ?n i"
      unfolding up_inv_def
    proof (intro conjI allI impI)
      fix c assume c: "c < ?n" "0 < c \<and> c \<noteq> i"
      let ?p = "(c - 1) div 2"
      have pc: "?p < c" using c parent_less by auto
      show "item_key (?h ! ?p) \<le> item_key (?h ! c)"
      proof (cases "c = j")
        case True
        moreover have "(j - Suc 0) div 2 = i" by (simp add: i_def)
      ultimately show ?thesis using lt ij by (simp add: nth)
      next
        case cj: False
        have old: "item_key (h ! ?p) \<le> item_key (h ! c)"
          using "1.prems"(2) c cj by (simp add: up_inv_def)
        show ?thesis
        proof (cases "?p = j")
          case True
          then have "item_key (h ! i) \<le> item_key (h ! c)"
            using "1.prems"(2) c j0 by (auto simp: up_inv_def i_def)
          then show ?thesis using True cj c ij by (simp add: nth)
        next
          case pj: False
          show ?thesis
          proof (cases "?p = i")
            case True
            then show ?thesis using old lt cj c pj by (auto simp: nth)
          next
            case False
            then show ?thesis using old cj c pj by (simp add: nth)
          qed
        qed
      qed
    next
      fix c assume i0: "0 < i" and c: "c < ?n" "0 < c \<and> (c - 1) div 2 = i"
      let ?pp = "(i - 1) div 2"
      have ppi: "?pp < i" using i0 parent_less by auto
      have a: "item_key (h ! ?pp) \<le> item_key (h ! i)"
        using "1.prems"(2) i0 j0 len by (auto simp: up_inv_def)
      have cj: "c = j \<or> (c \<noteq> j \<and> (c - 1) div 2 = (j - 1) div 2)"
        using c by (auto simp: i_def)
      have "?h ! ?pp = h ! ?pp" using ppi j0 by (simp add: nth)
      moreover have "item_key (h ! ?pp) \<le> item_key (?h ! c)"
      proof (cases "c = j")
        case True
        then show ?thesis using a ij by (simp add: nth)
      next
        case False
        then have "item_key (h ! ((c - 1) div 2)) \<le> item_key (h ! c)"
          using "1.prems"(2) c by (auto simp: up_inv_def)
        then have "item_key (h ! i) \<le> item_key (h ! c)" using c by simp
        moreover have "c \<noteq> i" using c parent_less [of c] by auto
        ultimately show ?thesis using a False by (simp add: nth)
      qed
      ultimately show "item_key (?h ! ?pp) \<le> item_key (?h ! c)" by simp
    qed
    then have "heap_from (up ?h i) ?n 0"
      using "1.IH" [of i] False len by (simp add: i_def)
    then show ?thesis using False by (simp add: u)
  qed
qed

lemma up_mset: "j < length h \<Longrightarrow> mset (up h j) = mset h"
proof (induction h j rule: up.induct)
  case (1 h j)
  define i where "i = (j - 1) div 2"
  have u: "up h j = (if i = j \<or> \<not> Less (h ! j) (h ! i) then h else up (Swap h i j) i)"
    by (subst up.simps) (simp add: Let_def i_def)
  show ?case
  proof (cases "i = j \<or> \<not> Less (h ! j) (h ! i)")
    case True
    then show ?thesis by (auto simp: u)
  next
    case False
    then have "i < j" unfolding i_def by arith
    then have len: "i < length h" using "1.prems" by simp
    have "mset (up (Swap h i j) i) = mset (Swap h i j)"
      using "1.IH" [of i] False len by (simp add: i_def)
    then show ?thesis
      using False len "1.prems" by (simp add: u mset_Swap)
  qed
qed

lemma heap_top:
  "heap_from h n 0 \<Longrightarrow> j < n \<Longrightarrow> item_key (h ! 0) \<le> item_key (h ! j)"
proof (induction j rule: less_induct)
  case (less j)
  show ?case
  proof (cases "j = 0")
    case True
    then show ?thesis by simp
  next
    case False
    then have p: "(j - 1) div 2 < j" by arith
    then have "item_key (h ! 0) \<le> item_key (h ! ((j - 1) div 2))"
      using less by simp
    moreover have "item_key (h ! ((j - 1) div 2)) \<le> item_key (h ! j)"
      using less.prems False by (simp add: heap_from_def)
    ultimately show ?thesis by simp
  qed
qed

lemma Push_heap:
  assumes "heap_from h (length h) 0"
  shows "heap_from (Push h x) (length (Push h x)) 0" and "mset (Push h x) = mset h + {#x#}"
proof -
  have "up_inv (h @ [x]) (length (h @ [x])) (length h)"
    unfolding up_inv_def
  proof (intro conjI allI impI)
    fix c assume c: "c < length (h @ [x])" "0 < c \<and> c \<noteq> length h"
    then have "c < length h" "(c - 1) div 2 < length h" by auto
    then show "item_key ((h @ [x]) ! ((c - 1) div 2)) \<le> item_key ((h @ [x]) ! c)"
      using assms c by (simp add: heap_from_def nth_append)
  next
    fix c assume "c < length (h @ [x])" "0 < c \<and> (c - 1) div 2 = length h"
    then have "c < length h + 1" "(c - 1) div 2 = length h" "0 < c" by simp_all
    then have False by arith
    then show "item_key ((h @ [x]) ! ((length h - 1) div 2)) \<le> item_key ((h @ [x]) ! c)" ..
  qed
  from up_heap [OF _ this] show "heap_from (Push h x) (length (Push h x)) 0"
    by (simp add: Push_def)
  show "mset (Push h x) = mset h + {#x#}"
    by (simp add: Push_def up_mset)
qed

lemma Pop_heap:
  assumes "heap_from h (length h) 0" and "h \<noteq> []"
  shows "\<exists>h1. Pop h = Some (h ! 0, h1) \<and> heap_from h1 (length h1) 0
              \<and> mset h = add_mset (h ! 0) (mset h1)
              \<and> (\<forall>m \<in> set h. item_key (h ! 0) \<le> item_key m)"
proof -
  let ?n = "length h"
  let ?g = "take (?n - 1) (h[0 := h ! (?n - 1)])"
  have lg: "length ?g = ?n - 1" by simp
  have "down_inv ?g (?n - 1) 0 0"
    unfolding down_inv_def
  proof (intro conjI allI impI)
    fix j assume j: "j < ?n - 1" "0 < j \<and> 0 \<le> (j - 1) div 2 \<and> (j - 1) div 2 \<noteq> 0"
    then have "(j - 1) div 2 < ?n - 1" by arith
    then show "item_key (?g ! ((j - 1) div 2)) \<le> item_key (?g ! j)"
      using assms(1) j by (simp add: heap_from_def)
  qed simp
  from down_heap [OF _ this] have h1: "heap_from (down ?g 0 (?n - 1)) (?n - 1) 0" by simp
  have "mset ?g + {#h ! 0#} = mset h"
  proof (cases h)
    case Nil
    then show ?thesis using assms(2) by simp
  next
    case (Cons x xs)
    show ?thesis
    proof (cases "xs = []")
      case True
      then show ?thesis using Cons by simp
    next
      case False
      have "h ! (?n - 1) = last xs" using Cons False by (simp add: last_conv_nth)
      then have "?g = last xs # butlast xs"
        using Cons False by (simp add: butlast_conv_take take_Cons')
      moreover have "mset (last xs # butlast xs) = mset (butlast xs @ [last xs])" by simp
      moreover have "butlast xs @ [last xs] = xs" using False by simp
      ultimately have "mset ?g = mset xs" by simp
      then show ?thesis using Cons by simp
    qed
  qed
  then have ms: "mset h = add_mset (h ! 0) (mset (down ?g 0 (?n - 1)))"
    by (simp add: down_mset)
  have top: "\<forall>m \<in> set h. item_key (h ! 0) \<le> item_key m"
    using heap_top [OF assms(1)] by (auto simp: in_set_conv_nth)
  show ?thesis
    using assms(2) h1 ms top by (simp add: Pop_def Let_def)
qed

lemma init_heap_heap:
  "n \<le> length h \<Longrightarrow> heap_from h n c \<Longrightarrow> heap_from (init_heap h n c) n 0"
proof (induction c arbitrary: h)
  case 0
  then show ?case by simp
next
  case (Suc c)
  have "down_inv h n c c"
    unfolding down_inv_def
  proof (intro conjI allI impI)
    fix j assume "j < n" "0 < j \<and> c \<le> (j - 1) div 2 \<and> (j - 1) div 2 \<noteq> c"
    then show "item_key (h ! ((j - 1) div 2)) \<le> item_key (h ! j)"
      using Suc.prems(2) by (simp add: heap_from_def)
  next
    fix j assume "0 < c \<and> c \<le> (c - 1) div 2"
    then have False by arith
    then show "item_key (h ! ((c - 1) div 2)) \<le> item_key (h ! j)" ..
  qed
  from down_heap [OF Suc.prems(1) this] show ?case
    using Suc.IH [of "down h c n"] Suc.prems(1) by simp
qed

lemma init_heap_mset: "n \<le> length h \<Longrightarrow> mset (init_heap h n c) = mset h"
  by (induction c arbitrary: h) (simp_all add: down_mset)

lemma length_init_heap [simp]: "length (init_heap h n c) = length h"
  by (induction c arbitrary: h) simp_all

lemma heap_from_half: "heap_from h n (n div 2)"
  unfolding heap_from_def by (intro allI impI) arith

subsection \<open>What the block writer leaves in the file\<close>

definition reads_as ::
  "(string \<Rightarrow> string option) \<Rightarrow> string \<Rightarrow> BlockMeta \<Rightarrow> IndexRecord list \<Rightarrow> bool" where
  "reads_as lz4d bytes meta g \<longleftrightarrow>
     g \<noteq> [] \<and> StartKey meta = TrimRight0 (Key (hd g)) \<and> RecordCount meta = int (length g)
     \<and> (\<forall>br later. r br = bytes @ later \<longrightarrow> ReadBlock lz4d br meta = Inr g)"

definition wr_inv ::
  "(string \<Rightarrow> string option) \<Rightarrow> BlockWriter \<Rightarrow> IndexRecord list list \<Rightarrow> bool" where
  "wr_inv lz4d bw groups \<longleftrightarrow>
     offset bw = int (length (w bw))
     \<and> list_all2 (reads_as lz4d (w bw)) (sparseIndex bw) groups
     \<and> (\<forall>rc \<in> set (buffer bw). length (Key rc) = 64)"

lemma reads_as_append: "reads_as lz4d bytes meta g \<Longrightarrow> reads_as lz4d (bytes @ more_bytes) meta g"
  by (auto simp: reads_as_def)

lemma NewBlockWriter_wr: "wr_inv lz4d NewBlockWriter []"
  by (simp add: wr_inv_def NewBlockWriter_def)

lemma FlushBlock_wr:
  assumes lz4: "\<forall>b. lz4d (lz4c b) = Some b" and inv: "wr_inv lz4d bw groups"
  shows "\<exists>groups'. wr_inv lz4d (FlushBlock lz4c bw) groups'
           \<and> concat groups' = concat groups @ buffer bw
           \<and> buffer (FlushBlock lz4c bw) = []"
proof (cases "buffer bw = []")
  case True
  then show ?thesis using inv by (auto simp: FlushBlock_def)
next
  case False
  let ?c = "lz4c (WriteBatchRecords (buffer bw))"
  let ?meta = "\<lparr>StartKey = TrimRight0 (Key (hd (buffer bw))), Offset_m = offset bw,
                 Length_m = int (length ?c), RecordCount = int (length (buffer bw)),
                 IsDistinct = (\<forall>r \<in> set (tl (buffer bw)). Key (hd (buffer bw)) = Key r)\<rparr>"
  have keys: "\<forall>rc \<in> set (buffer bw). length (Key rc) = 64"
    and off: "offset bw = int (length (w bw))"
    and old: "list_all2 (reads_as lz4d (w bw)) (sparseIndex bw) groups"
    using inv by (auto simp: wr_inv_def)
  have rr: "read_records (WriteBatchRecords (buffer bw)) [] = Inr (buffer bw)"
    using read_records_batch [OF keys, of "[]"] by simp
  have new: "reads_as lz4d (w bw @ ?c) ?meta (buffer bw)"
    using False lz4 off rr by (auto simp: reads_as_def ReadBlock_def Let_def)
  have "list_all2 (reads_as lz4d (w bw @ ?c)) (sparseIndex bw) groups"
    using old by (rule list_all2_mono) (rule reads_as_append)
  then have "list_all2 (reads_as lz4d (w bw @ ?c)) (sparseIndex bw @ [?meta]) (groups @ [buffer bw])"
    using new by (simp add: list_all2_appendI)
  then have "wr_inv lz4d (FlushBlock lz4c bw) (groups @ [buffer bw])"
    using False off by (simp add: wr_inv_def FlushBlock_def Let_def)
  moreover have "buffer (FlushBlock lz4c bw) = []"
    using False by (simp add: FlushBlock_def Let_def)
  ultimately show ?thesis by auto
qed

lemma WriteRecord_wr:
  assumes lz4: "\<forall>b. lz4d (lz4c b) = Some b" and inv: "wr_inv lz4d bw groups"
    and key: "length (Key rc) = 64"
  shows "\<exists>groups'. wr_inv lz4d (WriteRecord lz4c bw rc) groups'
           \<and> concat groups' @ buffer (WriteRecord lz4c bw rc) = concat groups @ buffer bw @ [rc]"
proof -
  let ?bw1 = "bw\<lparr>buffer := buffer bw @ [rc], currentSize := currentSize bw + (64 + 16)\<rparr>"
  have inv1: "wr_inv lz4d ?bw1 groups"
    using inv key by (auto simp: wr_inv_def)
  show ?thesis
  proof (cases "BlockTargetSize \<le> currentSize ?bw1")
    case True
    from FlushBlock_wr [OF lz4 inv1] obtain groups' where
      "wr_inv lz4d (FlushBlock lz4c ?bw1) groups'"
      "concat groups' = concat groups @ buffer ?bw1" "buffer (FlushBlock lz4c ?bw1) = []"
      by blast
    then show ?thesis using True by (auto simp: WriteRecord_def Let_def)
  next
    case False
    then show ?thesis using inv1 by (auto simp: WriteRecord_def Let_def)
  qed
qed

lemma foldl_WriteRecord_wr:
  assumes lz4: "\<forall>b. lz4d (lz4c b) = Some b"
  shows "wr_inv lz4d bw groups \<Longrightarrow> \<forall>rc \<in> set recs. length (Key rc) = 64
    \<Longrightarrow> \<exists>groups'. wr_inv lz4d (foldl (WriteRecord lz4c) bw recs) groups'
           \<and> concat groups' @ buffer (foldl (WriteRecord lz4c) bw recs)
               = concat groups @ buffer bw @ recs"
proof (induction recs arbitrary: bw groups)
  case Nil
  then show ?case by auto
next
  case (Cons rc recs)
  from WriteRecord_wr [OF lz4 Cons.prems(1), of rc] Cons.prems(2) obtain g1 where
    g1: "wr_inv lz4d (WriteRecord lz4c bw rc) g1"
      "concat g1 @ buffer (WriteRecord lz4c bw rc) = concat groups @ buffer bw @ [rc]"
    by auto
  from Cons.IH [OF g1(1)] Cons.prems(2) obtain g2 where
    "wr_inv lz4d (foldl (WriteRecord lz4c) (WriteRecord lz4c bw rc) recs) g2"
    "concat g2 @ buffer (foldl (WriteRecord lz4c) (WriteRecord lz4c bw rc) recs)
       = concat g1 @ buffer (WriteRecord lz4c bw rc) @ recs"
    by auto
  then show ?case using g1(2) by auto
qed

lemma read_blocks_groups:
  "list_all2 (reads_as lz4d (r br)) metas groups \<Longrightarrow> read_blocks lz4d br metas = Inr (concat groups)"
proof (induction metas groups rule: list_all2_induct)
  case Nil
  then show ?case by simp
next
  case (Cons meta metas g groups)
  have "ReadBlock lz4d br meta = Inr g"
    using Cons.hyps(1) by (simp add: reads_as_def)
  then show ?case using Cons.IH by simp
qed

text \<open>The file that results from writing \<open>recs\<close> to a new block writer and closing it.\<close>

lemma written_file:
  assumes lz4: "\<forall>b. lz4d (lz4c b) = Some b" and keys: "\<forall>rc \<in> set recs. length (Key rc) = 64"
  shows "\<exists>metas groups.
           footer (Close lz4c (foldl (WriteRecord lz4c) NewBlockWriter recs)) = Some metas
           \<and> list_all2 (reads_as lz4d (body (Close lz4c (foldl (WriteRecord lz4c) NewBlockWriter recs))))
                 metas groups
           \<and> concat groups = recs
           \<and> decode_cidx lz4d (Close lz4c (foldl (WriteRecord lz4c) NewBlockWriter recs)) = Inr recs"
proof -
  let ?bw = "foldl (WriteRecord lz4c) NewBlockWriter recs"
  from foldl_WriteRecord_wr [where lz4d = lz4d and lz4c = lz4c, OF lz4 NewBlockWriter_wr keys]
  obtain g1 where g1: "wr_inv lz4d ?bw g1" "concat g1 @ buffer ?bw = recs"
    by (auto simp: NewBlockWriter_def)
  from FlushBlock_wr [OF lz4 g1(1)] obtain g2 where
    g2: "wr_inv lz4d (FlushBlock lz4c ?bw) g2" "concat g2 = concat g1 @ buffer ?bw"
    by blast
  let ?f = "Close lz4c ?bw"
  have f: "footer ?f = Some (sparseIndex (FlushBlock lz4c ?bw))" "body ?f = w (FlushBlock lz4c ?bw)"
    by (simp_all add: Close_def Let_def)
  have la: "list_all2 (reads_as lz4d (body ?f)) (sparseIndex (FlushBlock lz4c ?bw)) g2"
    using g2(1) by (simp add: wr_inv_def f)
  have "decode_cidx lz4d ?f = Inr (concat g2)"
    using read_blocks_groups [of lz4d "\<lparr>r = body ?f, Footer = sparseIndex (FlushBlock lz4c ?bw)\<rparr>"] la
    by (simp add: decode_cidx_def NewBlockReader_def f)
  then show ?thesis using f la g1(2) g2(2) by auto
qed

subsection \<open>Start keys of a sorted file\<close>

lemma TrimRight0_Cons:
  "TrimRight0 (c # cs) = (if TrimRight0 cs = [] \<and> c = NUL then [] else c # TrimRight0 cs)"
proof -
  have "TrimRight0 cs = [] \<longleftrightarrow> (\<forall>x \<in> set cs. x = NUL)"
    by (simp add: TrimRight0_def dropWhile_eq_Nil_conv)
  then show ?thesis
    by (auto simp: TrimRight0_def dropWhile_append)
qed

lemma TrimRight0_Nil [simp]: "TrimRight0 [] = []"
  by (simp add: TrimRight0_def)

lemma NUL_least: "NUL \<le> c"
  by (simp add: NUL_def less_eq_char_def)

lemma TrimRight0_mono:
  "length a = length b \<Longrightarrow> a \<le> b \<Longrightarrow> TrimRight0 a \<le> TrimRight0 b"
proof (induction a b rule: list_induct2)
  case Nil
  then show ?case by simp
next
  case (Cons x xs y ys)
  from Cons.prems have c: "x < y \<or> (x = y \<and> xs \<le> ys)" by simp
  show ?case
  proof (cases "TrimRight0 xs = [] \<and> x = NUL")
    case True
    then show ?thesis by (simp add: TrimRight0_Cons)
  next
    case False
    from c show ?thesis
    proof
      assume "x < y"
      then have "y \<noteq> NUL" using NUL_least [of x] by auto
      then show ?thesis using \<open>x < y\<close> False by (simp add: TrimRight0_Cons)
    next
      assume e: "x = y \<and> xs \<le> ys"
      then have le: "TrimRight0 xs \<le> TrimRight0 ys" using Cons.IH by simp
      have "\<not> (TrimRight0 ys = [] \<and> y = NUL)"
        using False e le by auto
      then show ?thesis using False e le by (auto simp: TrimRight0_Cons)
    qed
  qed
qed

lemma sorted_heads:
  "sorted (map f (concat gs)) \<Longrightarrow> \<forall>g \<in> set gs. g \<noteq> [] \<Longrightarrow> sorted (map (\<lambda>g. f (hd g)) gs)"
proof (induction gs)
  case Nil
  then show ?case by simp
next
  case (Cons g gs)
  then have s: "sorted (map f g @ map f (concat gs))" and ne: "g \<noteq> []" by simp_all
  have "f (hd g) \<le> f (hd g')" if "g' \<in> set gs" for g'
  proof -
    have "g' \<noteq> []" using Cons.prems(2) that by simp
    then have "hd g' \<in> set g'" by simp
    then have "hd g' \<in> set (concat gs)" using that by auto
    moreover have "hd g \<in> set g" using ne by simp
    ultimately show ?thesis using s by (auto simp: sorted_append)
  qed
  moreover have "sorted (map (\<lambda>g. f (hd g)) gs)"
    using Cons.IH Cons.prems s by (simp add: sorted_append)
  ultimately show ?case by auto
qed

lemma start_keys_sorted:
  assumes la: "list_all2 (reads_as lz4d bytes) metas groups"
    and srt: "sorted (map sort_key (concat groups))"
    and keys: "\<forall>rc \<in> set (concat groups). length (Key rc) = 64"
  shows "sorted (map StartKey metas)"
proof -
  have ne: "\<forall>g \<in> set groups. g \<noteq> []"
    using la by (auto simp: list_all2_conv_all_nth in_set_conv_nth reads_as_def)
  have sk: "map StartKey metas = map (\<lambda>g. TrimRight0 (Key (hd g))) groups"
    using la by (induction metas groups rule: list_all2_induct) (auto simp: reads_as_def)
  have "sorted (map (\<lambda>g. sort_key (hd g)) groups)"
    using sorted_heads [OF srt ne] .
  then have "sorted_wrt (\<lambda>g g'. sort_key (hd g) \<le> sort_key (hd g')) groups"
    by (simp add: sorted_map)
  then have "sorted_wrt (\<lambda>g g'. TrimRight0 (Key (hd g)) \<le> TrimRight0 (Key (hd g'))) groups"
  proof (rule sorted_wrt_mono_rel [rotated])
    fix g g' assume g: "g \<in> set groups" "g' \<in> set groups" "sort_key (hd g) \<le> sort_key (hd g')"
    then have "hd g \<in> set g" "hd g' \<in> set g'" using ne by simp_all
    then have "hd g \<in> set (concat groups)" "hd g' \<in> set (concat groups)" using g by auto
    then have "length (Key (hd g)) = 64" "length (Key (hd g')) = 64" using keys by blast+
    then have "length (Key (hd g)) = length (Key (hd g'))" by simp
    moreover have "Key (hd g) \<le> Key (hd g')"
      using g(3) by (auto simp: sort_key_def)
    ultimately show "TrimRight0 (Key (hd g)) \<le> TrimRight0 (Key (hd g'))"
      by (rule TrimRight0_mono)
  qed
  then show ?thesis by (simp add: sk sorted_map)
qed

subsection \<open>The merge loop\<close>

definition keys64 :: "IndexRecord list \<Rightarrow> bool" where
  "keys64 recs \<longleftrightarrow> (\<forall>rc \<in> set recs. length (Key rc) = 64)"

definition merge_inv :: "mergeItem list \<Rightarrow> IndexRecord list list \<Rightarrow> bool" where
  "merge_inv h pend \<longleftrightarrow>
     (\<forall>m \<in> set h. source m < length pend
        \<and> sorted (map sort_key (record_i m # pend ! source m))
        \<and> length (Key (record_i m)) = 64)
     \<and> (\<forall>i<length pend. i \<notin> source ` set h \<longrightarrow> pend ! i = [])
     \<and> (\<forall>p \<in> set pend. keys64 p)"

definition bloom_ok :: "BloomFilter option \<Rightarrow> bool" where
  "bloom_ok bl = (case bl of None \<Rightarrow> True | Some bf \<Rightarrow> bf_ok bf)"

lemma WriteBatchRecords_Nil [simp]: "WriteBatchRecords [] = []"
  by (simp add: WriteBatchRecords_def)

lemma ReadRecord_batch:
  "length (Key rc) = 64 \<Longrightarrow>
   ReadRecord (WriteBatchRecords (rc # recs)) = Inr (rc, WriteBatchRecords recs)"
  by (simp add: WriteBatchRecords_def ReadRecord_encode)

lemma ReadRecord_Nil: "ReadRecord [] = Inl EOF"
  by (simp add: ReadRecord_def RecordSize_def)

lemma note_key_ok:
  assumes "bloom_ok (bloom_m st)"
  shows "\<exists>st1. note_key st rc = Some st1 \<and> bloom_ok (bloom_m st1) \<and> heap st1 = heap st
               \<and> readers st1 = readers st \<and> writer st1 = writer st"
proof (cases "bloom_m st")
  case None
  then show ?thesis by (simp add: note_key_def bloom_ok_def)
next
  case (Some bf)
  then have "bf_ok bf" using assms by (simp add: bloom_ok_def)
  from Add_props [OF this, of "TrimRight0 (Key rc)"] obtain bf' where
    "Add bf (TrimRight0 (Key rc)) = Some bf'" "bf_ok bf'" by blast
  then show ?thesis using Some assms by (simp add: note_key_def bloom_ok_def)
qed

lemma concat_update_Cons:
  "i < length xs \<Longrightarrow> xs ! i = y # ys
   \<Longrightarrow> mset (concat xs) = add_mset y (mset (concat (xs[i := ys])))
       \<and> length (concat (xs[i := ys])) < length (concat xs)"
proof (induction xs arbitrary: i)
  case Nil
  then show ?case by simp
next
  case (Cons x xs)
  then show ?case by (cases i) auto
qed

lemma merge_inv_bound:
  assumes inv: "merge_inv h pend" and top: "\<forall>m \<in> set h. item_key t \<le> item_key m"
    and x: "x \<in> set (map record_i h) \<union> set (concat pend)"
  shows "sort_key (record_i t) \<le> sort_key x"
proof -
  from x consider "x \<in> set (map record_i h)" | "x \<in> set (concat pend)" by auto
  then show ?thesis
  proof cases
    case 1
    then obtain m where "m \<in> set h" "x = record_i m" by auto
    then show ?thesis using top by (auto simp: item_key_def)
  next
    case 2
    then obtain p where p: "p \<in> set pend" "x \<in> set p" by auto
    then obtain i where i: "i < length pend" "p = pend ! i" by (auto simp: in_set_conv_nth)
    then have "pend ! i \<noteq> []" using p by auto
    then obtain m where m: "m \<in> set h" "source m = i"
      using inv i(1) unfolding merge_inv_def by blast
    then have "sorted (map sort_key (record_i m # pend ! i))"
      using inv unfolding merge_inv_def by blast
    then have "sort_key (record_i m) \<le> sort_key x" using p(2) i(2) by auto
    moreover have "item_key t \<le> item_key m" using top m by simp
    ultimately show ?thesis by (simp add: item_key_def)
  qed
qed

lemma merge_loop_correct:
  assumes "heap_from (heap st) (length (heap st)) 0" and "merge_inv (heap st) pend"
    and "readers st = map WriteBatchRecords pend" and "bloom_ok (bloom_m st)"
  shows "\<exists>st' outs. merge_loop lz4c st = Inr st'
           \<and> writer st' = foldl (WriteRecord lz4c) (writer st) outs
           \<and> mset outs = mset (map record_i (heap st)) + mset (concat pend)
           \<and> sorted (map sort_key outs)"
  using assms
proof (induction "length (heap st) + length (concat pend)" arbitrary: st pend rule: less_induct)
  case less
  let ?h = "heap st"
  show ?case
  proof (cases "?h = []")
    case True
    then have "\<forall>i<length pend. pend ! i = []"
      using less.prems(2) by (simp add: merge_inv_def)
    then have "\<forall>p \<in> set pend. p = []" by (auto simp: in_set_conv_nth)
    then have "concat pend = []" by simp
    moreover have "merge_loop lz4c st = Inr st"
      using True by (subst merge_loop.simps) (simp add: Pop_def)
    ultimately show ?thesis using True by (intro exI [of _ st] exI [of _ "[]"]) simp
  next
    case False
    from Pop_heap [OF less.prems(1) False] obtain h1 where
      pop: "Pop ?h = Some (?h ! 0, h1)" and h1: "heap_from h1 (length h1) 0"
      and ms: "mset ?h = add_mset (?h ! 0) (mset h1)"
      and top: "\<forall>m \<in> set ?h. item_key (?h ! 0) \<le> item_key m"
      by blast
    define item where "item = ?h ! 0"
    define rc where "rc = record_i item"
    define s where "s = source item"
    have item_in: "item \<in> set ?h" using False by (simp add: item_def)
    have seth: "set ?h = insert item (set h1)"
      using ms by (metis item_def set_mset_add_mset_insert set_mset_mset)
    have lenh: "length ?h = Suc (length h1)"
      using ms by (metis size_add_mset size_mset)
    have s_lt: "s < length pend" and s_sorted: "sorted (map sort_key (rc # pend ! s))"
      and rc_key: "length (Key rc) = 64"
      using less.prems(2) item_in by (auto simp: merge_inv_def s_def rc_def)
    from note_key_ok [OF less.prems(4), of rc] obtain st1 where
      st1: "note_key st rc = Some st1" "bloom_ok (bloom_m st1)" "heap st1 = ?h"
        "readers st1 = readers st" "writer st1 = writer st"
      by blast
    define st2 where "st2 = st1\<lparr>writer := WriteRecord lz4c (writer st1) rc,
                                 mergedRecords := wrap64 (mergedRecords st1 + 1)\<rparr>"
    have rd: "readers st ! s = WriteBatchRecords (pend ! s)" "\<not> length (readers st) \<le> s"
      using less.prems(3) s_lt by simp_all
    have msr: "mset (map record_i ?h) = add_mset rc (mset (map record_i h1))"
      using arg_cong [OF ms, of "image_mset record_i"] by (simp add: rc_def item_def)
    have bound: "sort_key rc \<le> sort_key x"
      if "x \<in> set (map record_i ?h) \<union> set (concat pend)" for x
      using merge_inv_bound [OF less.prems(2) top that] by (simp add: rc_def item_def)
    show ?thesis
    proof (cases "pend ! s")
      case Nil
      let ?st' = "st2\<lparr>heap := h1\<rparr>"
      have step: "merge_loop lz4c st = merge_loop lz4c ?st'"
        using pop st1(1) rd Nil
        by (subst merge_loop.simps)
           (simp add: item_def [symmetric] rc_def [symmetric] s_def [symmetric] st2_def
              ReadRecord_Nil Let_def)
      have inv': "merge_inv h1 pend"
        unfolding merge_inv_def
      proof (intro conjI allI impI ballI)
        fix i assume i: "i < length pend" "i \<notin> source ` set h1"
        show "pend ! i = []"
        proof (cases "i = s")
          case True
          then show ?thesis using Nil by simp
        next
          case False
          then have "i \<notin> source ` set ?h" using i seth by (auto simp: s_def)
          then show ?thesis using less.prems(2) i by (simp add: merge_inv_def)
        qed
      qed (use less.prems(2) seth in \<open>auto simp: merge_inv_def\<close>)
      have "length (heap ?st') + length (concat pend) < length ?h + length (concat pend)"
        using lenh by simp
      from less.hyps [OF this] h1 inv' less.prems(3) st1
      obtain st' outs where r: "merge_loop lz4c ?st' = Inr st'"
        "writer st' = foldl (WriteRecord lz4c) (writer ?st') outs"
        "mset outs = mset (map record_i h1) + mset (concat pend)"
        "sorted (map sort_key outs)"
        by (auto simp: st2_def)
      have "\<forall>x \<in> set outs. sort_key rc \<le> sort_key x"
      proof
        fix x assume "x \<in> set outs"
        then have "x \<in># mset (map record_i h1) + mset (concat pend)" using r(3) by (metis set_mset_mset)
        then have "x \<in> set (map record_i ?h) \<union> set (concat pend)" using seth by auto
        then show "sort_key rc \<le> sort_key x" by (rule bound)
      qed
      then have "sorted (map sort_key (rc # outs))" using r(4) by auto
      moreover have "mset (rc # outs) = mset (map record_i ?h) + mset (concat pend)"
        using r(3) msr by simp
      moreover have "writer st' = foldl (WriteRecord lz4c) (writer st) (rc # outs)"
        using r(2) st1(5) by (simp add: st2_def)
      ultimately show ?thesis using step r(1) by metis
    next
      case (Cons nx rest)
      have nx_key: "length (Key nx) = 64"
      proof -
        have "pend ! s \<in> set pend" using s_lt by simp
        then show ?thesis using less.prems(2) Cons by (auto simp: merge_inv_def keys64_def)
      qed
      define new where "new = \<lparr>record_i = nx, source = s\<rparr>"
      define pend' where "pend' = pend[s := rest]"
      let ?st' = "st2\<lparr>heap := Push h1 new, readers := (readers st)[s := WriteBatchRecords rest]\<rparr>"
      have step: "merge_loop lz4c st = merge_loop lz4c ?st'"
        using pop st1(1) rd Cons nx_key
        by (subst merge_loop.simps)
           (simp add: item_def [symmetric] rc_def [symmetric] s_def [symmetric] st2_def
              ReadRecord_batch Let_def new_def)
      have ph: "heap_from (Push h1 new) (length (Push h1 new)) 0"
        and pm: "mset (Push h1 new) = mset h1 + {#new#}"
        using Push_heap [OF h1] by auto
      have setp: "set (Push h1 new) = insert new (set h1)"
        using pm by (metis add_mset_add_single set_mset_add_mset_insert set_mset_mset)
      have lenp: "length (Push h1 new) = Suc (length h1)"
        by (simp add: Push_def)
      have cu: "mset (concat pend) = add_mset nx (mset (concat pend'))"
        "length (concat pend') < length (concat pend)"
        using concat_update_Cons [OF s_lt Cons] by (simp_all add: pend'_def)
      have inv': "merge_inv (Push h1 new) pend'"
        unfolding merge_inv_def
      proof (intro conjI allI impI ballI)
        fix m assume m: "m \<in> set (Push h1 new)"
        show "source m < length pend'"
          using m setp seth less.prems(2) s_lt
          by (auto simp: merge_inv_def pend'_def new_def)
        show "length (Key (record_i m)) = 64"
          using m setp seth less.prems(2) nx_key by (auto simp: merge_inv_def new_def)
        show "sorted (map sort_key (record_i m # pend' ! source m))"
        proof (cases "m = new")
          case True
          then show ?thesis using s_sorted Cons s_lt by (simp add: new_def pend'_def)
        next
          case False
          then have mh: "m \<in> set ?h" using m setp seth by auto
          then have old: "sorted (map sort_key (record_i m # pend ! source m))"
            using less.prems(2) by (simp add: merge_inv_def)
          show ?thesis
          proof (cases "source m = s")
            case True
            then show ?thesis using old Cons s_lt by (auto simp: pend'_def)
          next
            case False
            then show ?thesis using old by (simp add: pend'_def)
          qed
        qed
      next
        fix i assume i: "i < length pend'" "i \<notin> source ` set (Push h1 new)"
        then have "i \<noteq> s" "i \<notin> source ` set h1" using setp by (auto simp: new_def)
        then have "i \<notin> source ` set ?h" using seth by (auto simp: s_def)
        then have "pend ! i = []" using less.prems(2) i by (simp add: merge_inv_def pend'_def)
        then show "pend' ! i = []" using \<open>i \<noteq> s\<close> by (simp add: pend'_def)
      next
        fix p assume "p \<in> set pend'"
        then have "p \<in> set pend \<or> p = rest"
          unfolding pend'_def using set_update_subset_insert [of pend s rest] by auto
        moreover have "keys64 (nx # rest)"
          using less.prems(2) Cons s_lt by (auto simp: merge_inv_def dest: nth_mem)
        ultimately show "keys64 p"
          using less.prems(2) by (auto simp: merge_inv_def keys64_def)
      qed
      have rd': "readers ?st' = map WriteBatchRecords pend'"
        using less.prems(3) by (simp add: pend'_def map_update)
      have "length (heap ?st') + length (concat pend') < length ?h + length (concat pend)"
        using lenh lenp cu(2) by simp
      from less.hyps [OF this] ph inv' rd' st1
      obtain st' outs where r: "merge_loop lz4c ?st' = Inr st'"
        "writer st' = foldl (WriteRecord lz4c) (writer ?st') outs"
        "mset outs = mset (map record_i (Push h1 new)) + mset (concat pend')"
        "sorted (map sort_key outs)"
        by (auto simp: st2_def)
      have mo: "mset outs = mset (map record_i h1) + mset (concat pend)"
        using r(3) arg_cong [OF pm, of "image_mset record_i"] cu(1) by (simp add: new_def)
      have "\<forall>x \<in> set outs. sort_key rc \<le> sort_key x"
      proof
        fix x assume "x \<in> set outs"
        then have "x \<in># mset (map record_i h1) + mset (concat pend)" using mo by (metis set_mset_mset)
        then have "x \<in> set (map record_i ?h) \<union> set (concat pend)" using seth by auto
        then show "sort_key rc \<le> sort_key x" by (rule bound)
      qed
      then have "sorted (map sort_key (rc # outs))" using r(4) by auto
      moreover have "mset (rc # outs) = mset (map record_i ?h) + mset (concat pend)"
        using mo msr by simp
      moreover have "writer st' = foldl (WriteRecord lz4c) (writer st) (rc # outs)"
        using r(2) st1(5) by (simp add: st2_def)
      ultimately show ?thesis using step r(1) by metis
    qed
  qed
qed

subsection \<open>The chunks of the sorter\<close>

definition sorts_records ::
  "(IndexRecord list \<Rightarrow> (IndexRecord \<Rightarrow> IndexRecord \<Rightarrow> int) \<Rightarrow> IndexRecord list) \<Rightarrow> bool" where
  "sorts_records sortFunc \<longleftrightarrow>
     (\<forall>xs. mset (sortFunc xs flushChunk_cmp) = mset xs
         \<and> sorted_wrt (\<lambda>a b. flushChunk_cmp a b \<le> 0) (sortFunc xs flushChunk_cmp))"

definition sorter_inv :: "(string \<Rightarrow> string) \<Rightarrow> Sorter \<Rightarrow> IndexRecord list list \<Rightarrow> bool" where
  "sorter_inv lz4c s chunks \<longleftrightarrow>
     chunkFiles s = map (\<lambda>c. lz4c (WriteBatchRecords c)) chunks
     \<and> (\<forall>c \<in> set chunks. c \<noteq> [] \<and> sorted (map sort_key c) \<and> keys64 c)
     \<and> keys64 (memBuffer s)"

lemma NewSorter_inv: "sorter_inv lz4c (NewSorter memoryLimit bl) []"
  by (simp add: sorter_inv_def NewSorter_def Let_def keys64_def)

lemma flushChunk_inv:
  assumes srt: "sorts_records sortFunc" and inv: "sorter_inv lz4c s chunks"
  shows "\<exists>chunks'. sorter_inv lz4c (flushChunk sortFunc lz4c s) chunks'
           \<and> mset (concat chunks') = mset (concat chunks) + mset (memBuffer s)
           \<and> memBuffer (flushChunk sortFunc lz4c s) = []
           \<and> bloom_s (flushChunk sortFunc lz4c s) = bloom_s s
           \<and> (memBuffer s \<noteq> [] \<longrightarrow> chunks' \<noteq> [])"
proof (cases "memBuffer s = []")
  case True
  then show ?thesis using inv by (auto simp: flushChunk_def)
next
  case False
  let ?c = "sortFunc (memBuffer s) flushChunk_cmp"
  have m: "mset ?c = mset (memBuffer s)"
    and w: "sorted_wrt (\<lambda>a b. flushChunk_cmp a b \<le> 0) ?c"
    using srt by (auto simp: sorts_records_def)
  have "set ?c = set (memBuffer s)" using m by (rule mset_eq_setD)
  then have k: "keys64 ?c" using inv by (simp add: sorter_inv_def keys64_def)
  have ne: "?c \<noteq> []" using m False by auto
  have s: "sorted (map sort_key ?c)"
    using w by (simp add: sorted_map flushChunk_cmp_iff)
  have "sorter_inv lz4c (flushChunk sortFunc lz4c s) (chunks @ [?c])"
    using inv False k ne s by (simp add: sorter_inv_def flushChunk_def Let_def keys64_def)
  moreover have "mset (concat (chunks @ [?c])) = mset (concat chunks) + mset (memBuffer s)"
    using m by simp
  ultimately show ?thesis
    using False by (intro exI [of _ "chunks @ [?c]"]) (simp add: flushChunk_def Let_def)
qed

lemma Sorter_Add_inv:
  assumes srt: "sorts_records sortFunc" and inv: "sorter_inv lz4c s chunks"
    and key: "length (Key rc) = 64"
  shows "\<exists>chunks'. sorter_inv lz4c (Sorter_Add sortFunc lz4c s rc) chunks'
           \<and> mset (concat chunks') + mset (memBuffer (Sorter_Add sortFunc lz4c s rc))
               = mset (concat chunks) + mset (memBuffer s) + {#rc#}
           \<and> bloom_s (Sorter_Add sortFunc lz4c s rc) = bloom_s s"
proof -
  let ?s1 = "s\<lparr>memBuffer := memBuffer s @ [rc], totalRecords := wrap64 (totalRecords s + 1)\<rparr>"
  have inv1: "sorter_inv lz4c ?s1 chunks"
    using inv key by (simp add: sorter_inv_def keys64_def)
  show ?thesis
  proof (cases "chunkSize ?s1 \<le> int (length (memBuffer ?s1))")
    case True
    from flushChunk_inv [OF srt inv1] obtain chunks' where
      "sorter_inv lz4c (flushChunk sortFunc lz4c ?s1) chunks'"
      "mset (concat chunks') = mset (concat chunks) + mset (memBuffer ?s1)"
      "memBuffer (flushChunk sortFunc lz4c ?s1) = []"
      "bloom_s (flushChunk sortFunc lz4c ?s1) = bloom_s ?s1"
      by blast
    then show ?thesis using True by (auto simp: Sorter_Add_def Let_def)
  next
    case False
    then show ?thesis using inv1 by (auto simp: Sorter_Add_def Let_def)
  qed
qed

lemma foldl_Sorter_Add_inv:
  assumes srt: "sorts_records sortFunc"
  shows "sorter_inv lz4c s chunks \<Longrightarrow> keys64 recs
    \<Longrightarrow> \<exists>chunks'. sorter_inv lz4c (foldl (Sorter_Add sortFunc lz4c) s recs) chunks'
           \<and> mset (concat chunks') + mset (memBuffer (foldl (Sorter_Add sortFunc lz4c) s recs))
               = mset (concat chunks) + mset (memBuffer s) + mset recs
           \<and> bloom_s (foldl (Sorter_Add sortFunc lz4c) s recs) = bloom_s s"
proof (induction recs arbitrary: s chunks)
  case Nil
  then show ?case by auto
next
  case (Cons rc recs)
  from Sorter_Add_inv [OF srt Cons.prems(1), of rc] Cons.prems(2) obtain c1 where
    c1: "sorter_inv lz4c (Sorter_Add sortFunc lz4c s rc) c1"
      "mset (concat c1) + mset (memBuffer (Sorter_Add sortFunc lz4c s rc))
         = mset (concat chunks) + mset (memBuffer s) + {#rc#}"
      "bloom_s (Sorter_Add sortFunc lz4c s rc) = bloom_s s"
    by (auto simp: keys64_def)
  from Cons.IH [OF c1(1)] Cons.prems(2) obtain c2 where
    "sorter_inv lz4c (foldl (Sorter_Add sortFunc lz4c) (Sorter_Add sortFunc lz4c s rc) recs) c2"
    "mset (concat c2)
       + mset (memBuffer (foldl (Sorter_Add sortFunc lz4c) (Sorter_Add sortFunc lz4c s rc) recs))
       = mset (concat c1) + mset (memBuffer (Sorter_Add sortFunc lz4c s rc)) + mset recs"
    "bloom_s (foldl (Sorter_Add sortFunc lz4c) (Sorter_Add sortFunc lz4c s rc) recs)
       = bloom_s (Sorter_Add sortFunc lz4c s rc)"
    by (auto simp: keys64_def)
  then show ?case using c1(2,3) by (intro exI [of _ c2]) (simp add: ac_simps)
qed

subsection \<open>The merge of the chunks\<close>

lemma first_records_chunks:
  "\<forall>c \<in> set chunks. c \<noteq> [] \<and> keys64 c \<Longrightarrow>
   first_records (map WriteBatchRecords chunks) i
     = (map (\<lambda>k. \<lparr>record_i = hd (chunks ! k), source = i + k\<rparr>) [0 ..< length chunks],
        map WriteBatchRecords (map tl chunks))"
proof (induction chunks arbitrary: i)
  case Nil
  then show ?case by simp
next
  case (Cons c chunks)
  then obtain x xs where c: "c = x # xs" by (cases c) auto
  then have "length (Key x) = 64" using Cons.prems by (simp add: keys64_def)
  then have rr: "ReadRecord (WriteBatchRecords (x # xs)) = Inr (x, WriteBatchRecords xs)"
    by (simp add: ReadRecord_batch)
  have "first_records (map WriteBatchRecords chunks) (i + 1)
     = (map (\<lambda>k. \<lparr>record_i = hd (chunks ! k), source = i + 1 + k\<rparr>) [0 ..< length chunks],
        map WriteBatchRecords (map tl chunks))"
    using Cons.IH [of "i + 1"] Cons.prems by simp
  then show ?case
    by (simp add: rr c map_upt_Suc del: upt_Suc)
qed

lemma heads_tails:
  "\<forall>c \<in> set chunks. c \<noteq> [] \<Longrightarrow>
   mset (map hd chunks) + mset (concat (map tl chunks)) = mset (concat chunks)"
proof (induction chunks)
  case Nil
  then show ?case by simp
next
  case (Cons c chunks)
  then obtain x xs where "c = x # xs" by (cases c) auto
  then show ?case using Cons by simp
qed

lemma kWayMerge_correct:
  assumes lz4: "\<forall>b. lz4d (lz4c b) = Some b" and inv: "sorter_inv lz4c s chunks"
    and bl: "bloom_ok (bloom_s s)"
  shows "\<exists>n bl' outs.
           kWayMerge lz4c lz4d s
             = Inr (n, Close lz4c (foldl (WriteRecord lz4c) NewBlockWriter outs), bl')
           \<and> mset outs = mset (concat chunks) \<and> sorted (map sort_key outs)"
proof -
  let ?n = "length chunks"
  let ?hs = "map (\<lambda>k. \<lparr>record_i = hd (chunks ! k), source = k\<rparr>) [0 ..< ?n]"
  let ?pend = "map tl chunks"
  let ?hp = "init_heap ?hs ?n (?n div 2)"
  have ch: "\<forall>c \<in> set chunks. c \<noteq> [] \<and> sorted (map sort_key c) \<and> keys64 c"
    using inv by (simp add: sorter_inv_def)
  have rd: "map (open_chunk lz4d) (chunkFiles s) = map WriteBatchRecords chunks"
    using inv lz4 by (simp add: sorter_inv_def open_chunk_def)
  have fr: "first_records (map WriteBatchRecords chunks) 0 = (?hs, map WriteBatchRecords ?pend)"
    using first_records_chunks [of chunks 0] ch by simp
  have len0: "length ?hs = ?n" by simp
  have heap: "heap_from ?hp (length ?hp) 0"
    using init_heap_heap [of ?n ?hs "?n div 2"] heap_from_half [of ?hs ?n] by simp
  have "mset ?hp = mset ?hs" by (simp add: init_heap_mset)
  then have seth: "set ?hp = set ?hs" by (rule mset_eq_setD)
  have mem: "m \<in> set ?hs \<longleftrightarrow> (\<exists>k<?n. m = \<lparr>record_i = hd (chunks ! k), source = k\<rparr>)" for m
    by auto
  have minv: "merge_inv ?hp ?pend"
    unfolding merge_inv_def seth
  proof (intro conjI allI impI ballI)
    fix m assume "m \<in> set ?hs"
    then obtain k where k: "k < ?n" "m = \<lparr>record_i = hd (chunks ! k), source = k\<rparr>"
      using mem by blast
    then have c: "chunks ! k \<noteq> []" "sorted (map sort_key (chunks ! k))" "keys64 (chunks ! k)"
      using ch by (auto dest: nth_mem)
    show "source m < length ?pend" using k by simp
    show "length (Key (record_i m)) = 64" using k c by (simp add: keys64_def)
    have "hd (chunks ! k) # tl (chunks ! k) = chunks ! k" using c(1) by simp
    then show "sorted (map sort_key (record_i m # ?pend ! source m))"
      using k c(2) by simp
  next
    fix i assume i: "i < length ?pend" "i \<notin> source ` set ?hs"
    then have "\<lparr>record_i = hd (chunks ! i), source = i\<rparr> \<in> set ?hs" using mem by auto
    then have "i \<in> source ` set ?hs" by force
    then show "?pend ! i = []" using i by simp
  next
    fix p assume "p \<in> set ?pend"
    then obtain c where "c \<in> set chunks" "p = tl c" by auto
    then show "keys64 p" using ch by (auto simp: keys64_def dest: list.set_sel(2))
  qed
  let ?st = "\<lparr>heap = ?hp, readers = map WriteBatchRecords ?pend, writer = NewBlockWriter,
              distinctCount = 0, lastKey = replicate 64 NUL, firstRecord = True,
              bloom_m = bloom_s s, mergedRecords = 0\<rparr>"
  from merge_loop_correct [of ?st ?pend lz4c] heap minv bl obtain st' outs where
    r: "merge_loop lz4c ?st = Inr st'"
      "writer st' = foldl (WriteRecord lz4c) NewBlockWriter outs"
      "mset outs = mset (map record_i ?hp) + mset (concat ?pend)"
      "sorted (map sort_key outs)"
    by auto
  have e: "map record_i ?hs = map hd chunks"
    by (rule nth_equalityI) simp_all
  have "image_mset record_i (mset ?hp) = image_mset record_i (mset ?hs)"
    using \<open>mset ?hp = mset ?hs\<close> by (rule arg_cong)
  then have "mset (map record_i ?hp) = mset (map record_i ?hs)"
    by (simp only: mset_map)
  then have "mset (map record_i ?hp) = mset (map hd chunks)"
    by (simp only: e)
  then have "mset outs = mset (concat chunks)"
    using r(3) heads_tails [of chunks] ch by simp
  moreover have "kWayMerge lz4c lz4d s
      = Inr (distinctCount st', Close lz4c (foldl (WriteRecord lz4c) NewBlockWriter outs), bloom_m st')"
    using r(1,2) by (simp add: kWayMerge_def rd fr Let_def)
  ultimately show ?thesis using r(4) by blast
qed

lemma Finalize_correct:
  assumes lz4: "\<forall>b. lz4d (lz4c b) = Some b" and srt: "sorts_records sortFunc"
    and keys: "keys64 recs" and ne: "recs \<noteq> []" and bl: "bloom_ok bl"
  shows "\<exists>n bl' outs.
           Finalize sortFunc lz4c lz4d
               (foldl (Sorter_Add sortFunc lz4c) (NewSorter memoryLimit bl) recs)
             = Inr (n, Close lz4c (foldl (WriteRecord lz4c) NewBlockWriter outs), bl')
           \<and> mset outs = mset recs \<and> sorted (map sort_key outs)"
proof -
  let ?s = "foldl (Sorter_Add sortFunc lz4c) (NewSorter memoryLimit bl) recs"
  from foldl_Sorter_Add_inv [OF srt NewSorter_inv keys, of lz4c memoryLimit bl] obtain c1 where
    c1: "sorter_inv lz4c ?s c1" "mset (concat c1) + mset (memBuffer ?s) = mset recs"
      "bloom_s ?s = bl"
    by (auto simp: NewSorter_def Let_def)
  from flushChunk_inv [OF srt c1(1)] obtain c2 where
    c2: "sorter_inv lz4c (flushChunk sortFunc lz4c ?s) c2"
      "mset (concat c2) = mset (concat c1) + mset (memBuffer ?s)"
      "bloom_s (flushChunk sortFunc lz4c ?s) = bloom_s ?s"
    by blast
  have "mset (concat c2) = mset recs" using c1(2) c2(2) by simp
  then have "c2 \<noteq> []" using ne by auto
  then have "chunkFiles (flushChunk sortFunc lz4c ?s) \<noteq> []"
    using c2(1) by (simp add: sorter_inv_def)
  then have "Finalize sortFunc lz4c lz4d ?s = kWayMerge lz4c lz4d (flushChunk sortFunc lz4c ?s)"
    by (simp add: Finalize_def Let_def)
  moreover from kWayMerge_correct [OF lz4 c2(1)] bl c1(3) c2(3) obtain n bl' outs where
    "kWayMerge lz4c lz4d (flushChunk sortFunc lz4c ?s)
       = Inr (n, Close lz4c (foldl (WriteRecord lz4c) NewBlockWriter outs), bl')"
    "mset outs = mset (concat c2)" "sorted (map sort_key outs)"
    by auto
  ultimately show ?thesis using \<open>mset (concat c2) = mset recs\<close> by auto
qed


lemma sort_key_sorts: "sorts_records (\<lambda>xs cmp. List.sort_key sort_key xs)"
  unfolding sorts_records_def
proof (intro allI conjI)
  fix xs :: "IndexRecord list"
  show "mset (List.sort_key sort_key xs) = mset xs" by simp
  have "sorted (map sort_key (List.sort_key sort_key xs))" by (rule sorted_sort_key)
  then show "sorted_wrt (\<lambda>a b. flushChunk_cmp a b \<le> 0) (List.sort_key sort_key xs)"
    by (simp only: sorted_map flushChunk_cmp_iff)
qed

definition c1_records :: "IndexRecord list" where
  "c1_records = rev (map (row_rec ''K'') [0 ..< 1500])"

lemma c1_records_facts: "\<forall>rc \<in> set c1_records. length (Key rc) = 64" "c1_records \<noteq> []"
proof -
  show "\<forall>rc \<in> set c1_records. length (Key rc) = 64"
    by (auto simp: c1_records_def length_Key_row_rec simp del: upt_rec_numeral)
  have "length c1_records = 1500"
    by (simp add: c1_records_def del: upt_rec_numeral)
  then show "c1_records \<noteq> []" by auto
qed


section \<open>The chunked scan and the lines of the file\<close>

text \<open>
  What a handler call carries apart from the worker number, and a walk over the bytes of
  a chunk that keeps the bytes of the current line instead of positions in the chunk.
\<close>

definition strip :: "scan_call \<Rightarrow> string list \<times> int \<times> int" where
  "strip c = (keys c, row_offset c, row_line c)"

definition line_row ::
  "char \<Rightarrow> nat list list \<Rightarrow> nat \<Rightarrow> string \<Rightarrow> nat \<Rightarrow> int \<Rightarrow> string list \<times> int \<times> int" where
  "line_row sep defs ncols cur ls cl =
     (map (index_key (row_values (trim_cr cur) sep ncols)) defs, int ls, cl)"

fun awalk ::
  "char \<Rightarrow> nat list list \<Rightarrow> nat \<Rightarrow> string \<Rightarrow> nat \<Rightarrow> nat \<Rightarrow> bool \<Rightarrow> string \<Rightarrow> int
   \<Rightarrow> (string list \<times> int \<times> int) list
   \<Rightarrow> nat \<times> bool \<times> string \<times> int \<times> (string list \<times> int \<times> int) list" where
  "awalk sep defs ncols [] pos ls q cur cl out = (ls, q, cur, cl, out)"
| "awalk sep defs ncols (c # cs) pos ls q cur cl out =
     (if c = DQ then awalk sep defs ncols cs (pos + 1) ls (\<not> q) (cur @ [c]) cl out
      else if isNewline sep c \<and> \<not> q then
        (if trim_cr cur \<noteq> [] then
           awalk sep defs ncols cs (pos + 1) (pos + 1) q [] (cl + 1)
             (out @ [line_row sep defs ncols cur ls cl])
         else awalk sep defs ncols cs (pos + 1) (pos + 1) q [] cl out)
      else awalk sep defs ncols cs (pos + 1) ls q (cur @ [c]) cl out)"

fun finish_rows ::
  "char \<Rightarrow> nat list list \<Rightarrow> nat
   \<Rightarrow> nat \<times> bool \<times> string \<times> int \<times> (string list \<times> int \<times> int) list
   \<Rightarrow> (string list \<times> int \<times> int) list" where
  "finish_rows sep defs ncols (ls, q, cur, cl, out) =
     (if cur \<noteq> [] \<and> \<not> q \<and> trim_cr cur \<noteq> [] then out @ [line_row sep defs ncols cur ls cl]
      else out)"

definition chunk_rows ::
  "char \<Rightarrow> nat list list \<Rightarrow> string \<Rightarrow> nat \<Rightarrow> int \<Rightarrow> (string list \<times> int \<times> int) list" where
  "chunk_rows sep defs s a L =
     finish_rows sep defs (nat (max_col defs + 1))
       (awalk sep defs (nat (max_col defs + 1)) s a a False [] L [])"

definition chunk_count :: "char \<Rightarrow> string \<Rightarrow> int" where
  "chunk_count sep s =
     (case count_walk sep s False 0 of
        (q, n) \<Rightarrow> if s \<noteq> [] \<and> last s \<noteq> NL \<and> \<not> q then n + 1 else n)"

lemma strip_parseLineSimd:
  "strip (parseLineSimd (trim_cr cur) sep off wid defs ncols cl)
   = (map (index_key (row_values (trim_cr cur) sep ncols)) defs, off, cl)"
  by (simp add: strip_def parseLineSimd_def)

lemma chunk_walk_awalk:
  "chunkData = pre @ cs \<Longrightarrow> bp = length pre \<Longrightarrow> ls \<le> bp \<Longrightarrow> cur = slice chunkData ls bp \<Longrightarrow>
   (case chunk_walk chunkData sep start wid defs ncols cs bp ls q cl out of
      (ls', q', cl', out') \<Rightarrow>
        (start + ls', q', slice chunkData ls' (length chunkData), cl', map strip out'))
   = awalk sep defs ncols cs (start + bp) (start + ls) q cur cl (map strip out)"
proof (induction cs arbitrary: pre bp ls q cur cl out)
  case Nil
  then show ?case by simp
next
  case (Cons c cs)
  have l: "chunkData = (pre @ [c]) @ cs" "bp + 1 = length (pre @ [c])"
    using Cons.prems by simp_all
  have sn: "slice chunkData ls (bp + 1) = cur @ [c]"
    using Cons.prems slice_snoc [of ls pre c cs] by simp
  show ?case
  proof (cases "c = DQ")
    case True
    then show ?thesis
      using Cons.IH [OF l, of ls "cur @ [c]" "\<not> q" cl out] Cons.prems sn by simp
  next
    case nq: False
    show ?thesis
    proof (cases "isNewline sep c \<and> \<not> q")
      case True
      show ?thesis
      proof (cases "trim_cr cur \<noteq> []")
        case t: True
        show ?thesis
          using Cons.IH [OF l, of "bp + 1" "[]" q "cl + 1"
              "out @ [parseLineSimd (trim_cr cur) sep (int (start + ls)) wid defs ncols cl]"]
            Cons.prems nq True t
          by (simp add: Let_def strip_parseLineSimd line_row_def add.assoc)
      next
        case t: False
        show ?thesis
          using Cons.IH [OF l, of "bp + 1" "[]" q cl out] Cons.prems nq True t
          by (simp add: Let_def add.assoc)
      qed
    next
      case False
      then show ?thesis
        using Cons.IH [OF l, of ls "cur @ [c]" q cl out] Cons.prems sn nq by auto
    qed
  qed
qed

lemma processChunk_rows:
  assumes "start < e" and "e \<le> length data"
  shows "map strip (processChunk data sep start e wid L defs)
         = chunk_rows sep defs (slice data start e) start L"
proof -
  let ?cd = "slice data start e"
  let ?n = "nat (max_col defs + 1)"
  have ne: "\<not> length data \<le> start" using assms by simp
  obtain ls' q' cl' out' where
    cw: "chunk_walk ?cd sep start wid defs ?n ?cd 0 0 False L [] = (ls', q', cl', out')"
    by (cases "chunk_walk ?cd sep start wid defs ?n ?cd 0 0 False L []") auto
  have aw: "awalk sep defs ?n ?cd start start False [] L []
            = (start + ls', q', slice ?cd ls' (length ?cd), cl', map strip out')"
    using chunk_walk_awalk [where chunkData = ?cd and pre = "[]" and cs = ?cd and bp = 0
        and ls = 0 and cur = "[]" and sep = sep and start = start and wid = wid and defs = defs
        and ncols = ?n and q = False and cl = L and out = "[]"] cw
    by simp
  have d: "slice ?cd ls' (length ?cd) = drop ls' ?cd"
    by (simp add: slice_def)
  show ?thesis
  proof (cases "ls' < length ?cd")
    case True
    then have "drop ls' ?cd \<noteq> []" by simp
    then show ?thesis
      using assms ne cw True
      by (simp add: processChunk_def chunk_rows_def aw d Let_def strip_parseLineSimd
          line_row_def del: drop_eq_Nil drop_eq_Nil2)
  next
    case False
    then have "drop ls' ?cd = []" by simp
    then show ?thesis
      using assms ne cw False
      by (simp add: processChunk_def chunk_rows_def aw d Let_def del: drop_eq_Nil drop_eq_Nil2)
  qed
qed

lemma countChunkLines_count:
  "start < e \<Longrightarrow> e \<le> length data \<Longrightarrow>
   countChunkLines data sep start e = chunk_count sep (slice data start e)"
  by (auto simp: countChunkLines_def chunk_count_def Let_def slice_def split: prod.splits)

subsection \<open>Files without quoted newlines, open quotes and empty lines\<close>

text \<open>
  The bytes after the header are regular when every newline is met outside quotes, ends a
  line that is not empty once a trailing carriage return is removed, and a last line without
  a newline is of that kind too, with no quote left open.
\<close>

fun regular :: "string \<Rightarrow> bool \<Rightarrow> string \<Rightarrow> bool" where
  "regular [] q cur \<longleftrightarrow> \<not> q \<and> (cur = [] \<or> trim_cr cur \<noteq> [])"
| "regular (c # cs) q cur \<longleftrightarrow>
     (if c = DQ then regular cs (\<not> q) (cur @ [c])
      else if c = NL then \<not> q \<and> trim_cr cur \<noteq> [] \<and> regular cs False []
      else regular cs q (cur @ [c]))"

lemma isNewline_NL: "sep \<noteq> NL \<Longrightarrow> c \<noteq> DQ \<Longrightarrow> isNewline sep c \<longleftrightarrow> c = NL"
  by (auto simp: isNewline_def)

lemma count_newlines_simps [simp]:
  "count_newlines [] = 0"
  "count_newlines (c # cs) = (if c = NL then 1 else 0) + count_newlines cs"
  "count_newlines (xs @ ys) = count_newlines xs + count_newlines ys"
  by (simp_all add: count_newlines_def)

lemma DQ_not_NL: "DQ \<noteq> NL"
  by (simp add: DQ_def NL_def)

lemma awalk_regular:
  assumes "sep \<noteq> NL"
  shows "regular cs q cur \<Longrightarrow>
     awalk sep defs ncols cs pos ls q cur cl out = (ls', q', cur', cl', out') \<Longrightarrow>
     \<not> q' \<and> (cur' = [] \<or> trim_cr cur' \<noteq> []) \<and> cl' = cl + count_newlines cs
     \<and> int (length out') = int (length out) + count_newlines cs
     \<and> (cs \<noteq> [] \<and> last cs = NL \<longrightarrow> cur' = [] \<and> ls' = pos + length cs)
     \<and> (cs \<noteq> [] \<and> last cs \<noteq> NL \<longrightarrow> cur' \<noteq> [])
     \<and> (cs = [] \<longrightarrow> cur' = cur)"
proof (induction cs arbitrary: pos ls q cur cl out)
  case Nil
  then show ?case by auto
next
  case (Cons c cs)
  show ?case
  proof (cases "c = DQ")
    case True
    then show ?thesis
      using Cons.IH [where q = "\<not> q" and cur = "cur @ [c]" and pos = "pos + 1" and ls = ls
          and cl = cl and out = out] Cons.prems DQ_not_NL
      by (auto split: if_splits)
  next
    case nq: False
    show ?thesis
    proof (cases "c = NL")
      case True
      then have r: "\<not> q" "trim_cr cur \<noteq> []" "regular cs False []"
        using Cons.prems(1) nq by auto
      have a: "awalk sep defs ncols cs (pos + 1) (pos + 1) False [] (cl + 1)
                 (out @ [line_row sep defs ncols cur ls cl]) = (ls', q', cur', cl', out')"
        using Cons.prems(2) True nq r assms by (simp add: isNewline_NL)
      show ?thesis
      proof (cases "cs = []")
        case e: True
        then show ?thesis using a True by auto
      next
        case False
        then show ?thesis
          using Cons.IH [OF r(3) a] True by auto
      qed
    next
      case False
      then have "awalk sep defs ncols cs (pos + 1) ls q (cur @ [c]) cl out = (ls', q', cur', cl', out')"
        using Cons.prems(2) nq assms by (simp add: isNewline_NL)
      moreover have "regular cs q (cur @ [c])" using Cons.prems(1) nq False by simp
      ultimately show ?thesis
        using Cons.IH [where q = q and cur = "cur @ [c]" and pos = "pos + 1" and ls = ls
            and cl = cl and out = out] False
        by (auto split: if_splits)
    qed
  qed
qed

lemma awalk_append:
  "awalk sep defs ncols (xs @ ys) pos ls q cur cl out
   = (case awalk sep defs ncols xs pos ls q cur cl out of
        (ls', q', cur', cl', out') \<Rightarrow> awalk sep defs ncols ys (pos + length xs) ls' q' cur' cl' out')"
  by (induction xs arbitrary: pos ls q cur cl out) (simp_all add: add.assoc)

lemma awalk_out:
  "awalk sep defs ncols cs pos ls q cur cl (out1 @ out2)
   = (case awalk sep defs ncols cs pos ls q cur cl out2 of
        (ls', q', cur', cl', out') \<Rightarrow> (ls', q', cur', cl', out1 @ out'))"
  by (induction cs arbitrary: pos ls q cur cl out2) simp_all

lemma regular_suffix:
  "regular (xs @ ys) q cur \<Longrightarrow> xs \<noteq> [] \<Longrightarrow> last xs = NL \<Longrightarrow> regular ys False []"
proof (induction xs arbitrary: q cur)
  case Nil
  then show ?case by simp
next
  case (Cons c xs)
  then show ?case using DQ_not_NL by (cases "xs = []") (auto split: if_splits)
qed

lemma regular_prefix:
  "regular (xs @ ys) q cur \<Longrightarrow> xs \<noteq> [] \<Longrightarrow> last xs = NL \<Longrightarrow> regular xs q cur"
proof (induction xs arbitrary: q cur)
  case Nil
  then show ?case by simp
next
  case (Cons c xs)
  then show ?case using DQ_not_NL by (cases "xs = []") (auto split: if_splits)
qed

lemma count_walk_regular:
  assumes "sep \<noteq> NL"
  shows "regular cs q cur \<Longrightarrow> count_walk sep cs q n = (False, n + count_newlines cs)"
proof (induction cs arbitrary: q cur n)
  case Nil
  then show ?case by simp
next
  case (Cons c cs)
  then show ?case
    using assms DQ_not_NL by (auto simp: isNewline_def split: if_splits)
qed

lemma chunk_count_regular:
  "sep \<noteq> NL \<Longrightarrow> regular s False [] \<Longrightarrow>
   chunk_count sep s = count_newlines s + (if s \<noteq> [] \<and> last s \<noteq> NL then 1 else 0)"
  by (simp add: chunk_count_def count_walk_regular)

lemma finish_rows_out:
  "finish_rows sep defs ncols (ls, q, cur, cl, out1 @ out2)
   = out1 @ finish_rows sep defs ncols (ls, q, cur, cl, out2)"
  by simp

lemma chunk_rows_split:
  assumes "sep \<noteq> NL" and "regular (xs @ ys) False []" and "xs \<noteq> []" and "last xs = NL"
  shows "chunk_rows sep defs (xs @ ys) a L
         = chunk_rows sep defs xs a L
           @ chunk_rows sep defs ys (a + length xs) (L + chunk_count sep xs)"
proof -
  let ?n = "nat (max_col defs + 1)"
  have rx: "regular xs False []" using regular_prefix [OF assms(2-4)] .
  obtain ls' q' cur' cl' out' where
    ax: "awalk sep defs ?n xs a a False [] L [] = (ls', q', cur', cl', out')"
    by (cases "awalk sep defs ?n xs a a False [] L []") auto
  from awalk_regular [OF assms(1) rx ax] assms(3,4) have
    st: "q' = False" "cur' = []" "ls' = a + length xs" "cl' = L + count_newlines xs"
    by auto
  have cc: "chunk_count sep xs = count_newlines xs"
    using chunk_count_regular [OF assms(1) rx] assms(3,4) by simp
  obtain ls2 q2 cur2 cl2 out2 where
    ay: "awalk sep defs ?n ys (a + length xs) (a + length xs) False [] (L + count_newlines xs) []
         = (ls2, q2, cur2, cl2, out2)"
    by (cases "awalk sep defs ?n ys (a + length xs) (a + length xs) False []
                 (L + count_newlines xs) []") auto
  have "awalk sep defs ?n ys (a + length xs) (a + length xs) False [] (L + count_newlines xs) out'
        = (ls2, q2, cur2, cl2, out' @ out2)"
    using awalk_out [where sep = sep and defs = defs and ncols = ?n and cs = ys
        and pos = "a + length xs" and ls = "a + length xs" and q = False and cur = "[]"
        and cl = "L + count_newlines xs" and ?out1.0 = out' and ?out2.0 = "[]"] ay by simp
  then have "awalk sep defs ?n (xs @ ys) a a False [] L [] = (ls2, q2, cur2, cl2, out' @ out2)"
    by (simp add: awalk_append ax st)
  then show ?thesis
    by (simp add: chunk_rows_def ax st cc ay)
qed

lemma chunk_rows_Nil [simp]: "chunk_rows sep defs [] a L = []"
  by (simp add: chunk_rows_def)

lemma length_chunk_rows:
  assumes "sep \<noteq> NL" and "regular s False []"
  shows "int (length (chunk_rows sep defs s a L))
         = count_newlines s + (if s \<noteq> [] \<and> last s \<noteq> NL then 1 else 0)"
proof -
  let ?n = "nat (max_col defs + 1)"
  obtain ls' q' cur' cl' out' where
    ax: "awalk sep defs ?n s a a False [] L [] = (ls', q', cur', cl', out')"
    by (cases "awalk sep defs ?n s a a False [] L []") auto
  from awalk_regular [OF assms ax] have
    st: "\<not> q'" "cur' = [] \<or> trim_cr cur' \<noteq> []"
      "int (length out') = count_newlines s" "s \<noteq> [] \<and> last s = NL \<longrightarrow> cur' = []"
    by auto
  from awalk_regular [OF assms ax] have
    cur: "cur' \<noteq> [] \<longleftrightarrow> s \<noteq> [] \<and> last s \<noteq> NL"
    by auto
  show ?thesis
    using st cur by (auto simp: chunk_rows_def ax)
qed

subsection \<open>Chunk boundaries of a regular file\<close>

lemma IndexByte_Some_iff:
  "IndexByte s c = Some k \<longleftrightarrow> k < length s \<and> s ! k = c \<and> c \<notin> set (take k s)"
proof (induction s arbitrary: k)
  case Nil
  then show ?case by simp
next
  case (Cons x s)
  show ?case
  proof (cases k)
    case 0
    then show ?thesis by auto
  next
    case (Suc j)
    then show ?thesis using Cons.IH [of j] by auto
  qed
qed

lemma IndexByte_None_iff: "IndexByte s c = None \<longleftrightarrow> c \<notin> set s"
  by (induction s) auto

definition nxt :: "string \<Rightarrow> nat \<Rightarrow> nat" where
  "nxt data h = (case IndexByte (drop h data) NL of None \<Rightarrow> length data | Some k \<Rightarrow> h + k + 1)"

lemma nxt_bounds:
  assumes "h < length data"
  shows "h < nxt data h" and "nxt data h \<le> length data"
    and "nxt data h = length data \<or> data ! (nxt data h - 1) = NL"
proof -
  show "h < nxt data h" using assms by (simp add: nxt_def split: option.splits)
  show "nxt data h \<le> length data"
    using assms by (auto simp: nxt_def IndexByte_Some_iff split: option.splits)
  show "nxt data h = length data \<or> data ! (nxt data h - 1) = NL"
    using assms by (auto simp: nxt_def IndexByte_Some_iff split: option.splits)
qed

lemma nxt_mono:
  assumes "h \<le> h'" and "h' < length data"
  shows "nxt data h \<le> nxt data h'"
proof (cases "IndexByte (drop h data) NL")
  case None
  then have "NL \<notin> set (drop h data)" by (simp add: IndexByte_None_iff)
  moreover have "set (drop h' data) \<subseteq> set (drop h data)"
    using assms(1) by (rule set_drop_subset_set_drop)
  ultimately have "NL \<notin> set (drop h' data)" by blast
  then have "IndexByte (drop h' data) NL = None" by (simp add: IndexByte_None_iff)
  then show ?thesis using None by (simp add: nxt_def)
next
  case (Some k)
  have k1: "k < length (drop h data)" and k2: "drop h data ! k = NL"
    and k3: "NL \<notin> set (take k (drop h data))"
    using Some unfolding IndexByte_Some_iff by blast+
  have hk: "h + k < length data" using k1 by simp
  have nh: "nxt data h = h + k + 1" using Some by (simp add: nxt_def)
  show ?thesis
  proof (cases "h' \<le> h + k")
    case True
    define j where "j = h + k - h'"
    have hj: "h' + j = h + k" using True by (simp add: j_def)
    have j1: "j < length (drop h' data)" using hk hj by simp
    have "drop h' data ! j = data ! (h' + j)" using j1 by simp
    also have "\<dots> = drop h data ! k" using hk hj by simp
    finally have j2: "drop h' data ! j = NL" using k2 by simp
    have j3: "NL \<notin> set (take j (drop h' data))"
    proof
      assume "NL \<in> set (take j (drop h' data))"
      then obtain i where i: "i < length (take j (drop h' data))"
        "take j (drop h' data) ! i = NL"
        by (meson in_set_conv_nth)
      then have ij: "i < j" by simp
      define m where "m = h' - h + i"
      have mk: "m < k" using ij hj assms(1) by (simp add: m_def)
      have hm: "h + m = h' + i" using assms(1) by (simp add: m_def)
      have "take j (drop h' data) ! i = data ! (h' + i)" using ij j1 by simp
      also have "\<dots> = take k (drop h data) ! m" using mk k1 hm by simp
      finally have "take k (drop h data) ! m = NL" using i(2) by simp
      moreover have "m < length (take k (drop h data))" using mk k1 by simp
      ultimately have "NL \<in> set (take k (drop h data))" by (metis nth_mem)
      then show False using k3 by simp
    qed
    have "IndexByte (drop h' data) NL = Some j"
      unfolding IndexByte_Some_iff using j1 j2 j3 by blast
    then have "nxt data h' = h' + j + 1" by (simp add: nxt_def)
    then show ?thesis using nh hj by simp
  next
    case False
    then have "h + k + 1 \<le> h'" by simp
    also have "h' < nxt data h'" using nxt_bounds(1) [OF assms(2)] .
    finally show ?thesis using nh by simp
  qed
qed

lemma regular_line:
  "regular (l @ rest) q cur \<Longrightarrow> NL \<notin> set l
   \<Longrightarrow> regular rest (q \<noteq> odd (length (filter (\<lambda>c. c = DQ) l))) (cur @ l)"
proof (induction l arbitrary: q cur)
  case Nil
  then show ?case by simp
next
  case (Cons c l)
  show ?case
  proof (cases "c = DQ")
    case True
    then show ?thesis using Cons.IH [of "\<not> q" "cur @ [c]"] Cons.prems by auto
  next
    case False
    then show ?thesis using Cons.IH [of q "cur @ [c]"] Cons.prems by auto
  qed
qed

lemma regular_even_quotes:
  assumes "regular (l @ NL # rest) False []" and "NL \<notin> set l"
  shows "even (length (filter (\<lambda>c. c = DQ) l))"
proof -
  have "regular (NL # rest) (False \<noteq> odd (length (filter (\<lambda>c. c = DQ) l))) ([] @ l)"
    using regular_line [OF assms] .
  then show ?thesis using DQ_not_NL by (auto split: if_splits)
qed

lemma drop_slice: "a \<le> b \<Longrightarrow> drop a data = slice data a b @ drop b data"
proof -
  assume "a \<le> b"
  then have "drop b data = drop (b - a) (drop a data)" by simp
  then show ?thesis by (simp only: slice_def append_take_drop_id)
qed

lemma regular_drop:
  assumes "regular (drop a data) False []" and "a < b" and "b \<le> length data"
    and "data ! (b - 1) = NL"
  shows "regular (drop b data) False []" and "regular (slice data a b) False []"
    and "slice data a b \<noteq> []" and "last (slice data a b) = NL"
proof -
  have e: "drop a data = slice data a b @ drop b data"
    using assms(2) by (intro drop_slice) simp
  show ne: "slice data a b \<noteq> []" using assms(2,3) by (simp add: slice_def)
  have "length (slice data a b) = b - a" using assms(2,3) by (simp add: slice_def)
  moreover have "slice data a b ! (b - a - 1) = data ! (a + (b - a - 1))"
    using assms(2,3) by (simp add: slice_def)
  moreover have "a + (b - a - 1) = b - 1" using assms(2) by simp
  ultimately show l: "last (slice data a b) = NL"
    using assms(4) ne by (simp add: last_conv_nth)
  show "regular (drop b data) False []"
    using regular_suffix [of "slice data a b" "drop b data" False "[]"] assms(1) e ne l by simp
  show "regular (slice data a b) False []"
    using regular_prefix [of "slice data a b" "drop b data" False "[]"] assms(1) e ne l by simp
qed

lemma safe_loop_regular:
  assumes reg: "regular (drop a data) False []" and "a \<le> cn" and "cn < length data"
    and nl: "data ! cn = NL"
  shows "safe_loop data cn = cn + 1"
proof (cases "length data \<le> cn + 1")
  case True
  then show ?thesis using assms(3) by (subst safe_loop.simps) simp
next
  case False
  have r: "regular (drop (cn + 1) data) False []"
    using regular_drop(1) [OF reg, of "cn + 1"] assms(2,3) nl by simp
  show ?thesis
  proof (cases "IndexByte (drop (cn + 1) data) NL")
    case None
    then show ?thesis using False by (subst safe_loop.simps) simp
  next
    case (Some nn)
    then have n: "nn < length (drop (cn + 1) data)" "drop (cn + 1) data ! nn = NL"
      "NL \<notin> set (take nn (drop (cn + 1) data))"
      by (auto simp: IndexByte_Some_iff)
    have "drop (cn + 1) data = take nn (drop (cn + 1) data) @ NL # drop (Suc nn) (drop (cn + 1) data)"
      using n(1,2) by (metis id_take_nth_drop)
    then have "even (length (filter (\<lambda>c. c = DQ) (take nn (drop (cn + 1) data))))"
      using regular_even_quotes [OF _ n(3)] r by metis
    moreover have "slice data (cn + 1) (cn + 1 + nn) = take nn (drop (cn + 1) data)"
      by (simp add: slice_def)
    ultimately show ?thesis
      using False Some by (subst safe_loop.simps) (simp add: Let_def)
  qed
qed

lemma findSafeRecordBoundary_regular:
  assumes reg: "regular (drop a data) False []" and "a \<le> h" and "h < length data"
  shows "findSafeRecordBoundary data h = nxt data h"
proof (cases "IndexByte (drop h data) NL")
  case None
  then show ?thesis using assms(3) by (simp add: findSafeRecordBoundary_def nxt_def)
next
  case (Some k)
  then have k: "k < length (drop h data)" "drop h data ! k = NL"
    by (auto simp: IndexByte_Some_iff)
  then have "h + k < length data" "data ! (h + k) = NL" using assms(3) by auto
  then have "safe_loop data (h + k) = h + k + 1"
    using safe_loop_regular [OF reg, of "h + k"] assms(2) by simp
  then show ?thesis using Some assms(3) by (simp add: findSafeRecordBoundary_def nxt_def)
qed

subsection \<open>The scan of a regular file is the walk over its lines\<close>

lemma scan_rec_const:
  "\<forall>c \<in> set rest. c = b \<Longrightarrow> scan_rec data sep defs (b # rest) wid L = []"
proof (induction rest arbitrary: wid L)
  case Nil
  then show ?case by simp
next
  case (Cons c rest)
  then show ?case by simp
qed

lemma scan_rec_rows:
  assumes sep: "sep \<noteq> NL"
  shows "regular (drop a data) False [] \<Longrightarrow> sorted (a # bs) \<Longrightarrow> last (a # bs) = length data
    \<Longrightarrow> \<forall>b \<in> set bs. b \<le> length data \<and> (b = a \<or> b = length data \<or> data ! (b - 1) = NL)
    \<Longrightarrow> map strip (scan_rec data sep defs (a # bs) wid L) = chunk_rows sep defs (drop a data) a L"
proof (induction bs arbitrary: a wid L)
  case Nil
  then show ?case by simp
next
  case (Cons b rest)
  have ab: "a \<le> b" and blen: "b \<le> length data" using Cons.prems by auto
  show ?case
  proof (cases "a < b")
    case False
    then have e: "b = a" using ab by simp
    have "sorted (b # rest)" "last (b # rest) = length data"
      using Cons.prems(2,3) by simp_all
    moreover have "\<forall>c \<in> set rest. c \<le> length data
                     \<and> (c = b \<or> c = length data \<or> data ! (c - 1) = NL)"
      using Cons.prems(4) e by simp
    moreover have "regular (drop b data) False []" using Cons.prems(1) e by simp
    ultimately have "map strip (scan_rec data sep defs (b # rest) (wid + 1) L)
          = chunk_rows sep defs (drop b data) b L"
      by (intro Cons.IH)
    then show ?thesis using e by simp
  next
    case True
    have pc: "map strip (processChunk data sep a b wid L defs)
              = chunk_rows sep defs (slice data a b) a L"
      using processChunk_rows [OF True blen] .
    have cc: "countChunkLines data sep a b = chunk_count sep (slice data a b)"
      using countChunkLines_count [OF True blen] .
    show ?thesis
    proof (cases "b = length data")
      case e: True
      have "c = b" if "c \<in> set rest" for c
      proof -
        have "b \<le> c" using Cons.prems(2) that by simp
        moreover have "c \<le> length data" using Cons.prems(4) that by simp
        ultimately show ?thesis using e by simp
      qed
      then have "\<forall>c \<in> set rest. c = b" by blast
      then have "scan_rec data sep defs (b # rest) (wid + 1)
                   (L + countChunkLines data sep a b) = []"
        by (rule scan_rec_const)
      moreover have "slice data a b = drop a data" using e by (simp add: slice_def)
      ultimately show ?thesis using True pc by simp
    next
      case False
      then have nl: "data ! (b - 1) = NL" using Cons.prems True by auto
      note rd = regular_drop [OF Cons.prems(1) True blen nl]
      have e: "drop a data = slice data a b @ drop b data"
        using True by (intro drop_slice) simp
      have len: "a + length (slice data a b) = b" using True blen by (simp add: slice_def)
      have cond: "\<forall>c \<in> set rest. c \<le> length data
                     \<and> (c = b \<or> c = length data \<or> data ! (c - 1) = NL)"
      proof
        fix c assume c: "c \<in> set rest"
        then have "b \<le> c" using Cons.prems(2) by simp
        then have "c \<noteq> a" using True by simp
        then show "c \<le> length data \<and> (c = b \<or> c = length data \<or> data ! (c - 1) = NL)"
          using Cons.prems(4) c by auto
      qed
      have "sorted (b # rest)" "last (b # rest) = length data"
        using Cons.prems(2,3) by simp_all
      then have ih: "map strip (scan_rec data sep defs (b # rest) (wid + 1)
                  (L + chunk_count sep (slice data a b)))
                = chunk_rows sep defs (drop b data) b (L + chunk_count sep (slice data a b))"
        using rd(1) cond by (intro Cons.IH)
      have "chunk_rows sep defs (drop a data) a L
            = chunk_rows sep defs (slice data a b) a L
              @ chunk_rows sep defs (drop b data) b (L + chunk_count sep (slice data a b))"
        using chunk_rows_split [OF sep _ rd(3,4), of "drop b data" defs a L] Cons.prems(1) e len
        by simp
      then show ?thesis using True pc cc ih by simp
    qed
  qed
qed

lemma boundaries_regular:
  assumes reg: "regular (drop a data) False []" and "1 \<le> W" and "a < length data"
  shows "\<exists>bs. boundaries data a W = a # bs \<and> sorted (a # bs) \<and> last (a # bs) = length data
           \<and> (\<forall>b \<in> set bs. b \<le> length data
                  \<and> (b = a \<or> b = length data \<or> data ! (b - 1) = NL))"
proof -
  define cs where "cs = (length data - a) div W"
  define g where "g h = (if h < length data then nxt data h else length data)" for h
  let ?f = "\<lambda>i. let hint = a + i * cs
                in if hint < length data then findSafeRecordBoundary data hint else length data"
  have f: "?f i = g (a + i * cs)" for i
    using findSafeRecordBoundary_regular [OF reg, of "a + i * cs"] by (simp add: g_def Let_def)
  have gm: "g h \<le> g h'" if "h \<le> h'" for h h'
    using that nxt_mono [of h h' data] nxt_bounds(2) [of h data] by (auto simp: g_def)
  have gb: "a \<le> g h \<and> g h \<le> length data \<and> (g h = length data \<or> data ! (g h - 1) = NL)"
    if "a \<le> h" for h
    using that nxt_bounds [of h data] assms(3) by (auto simp: g_def)
  define ms where "ms = map ?f [1 ..< W]"
  have ms: "ms = map (\<lambda>i. g (a + i * cs)) [1 ..< W]"
    unfolding ms_def f ..
  have b: "boundaries data a W = a # (ms @ [length data])"
    by (simp add: boundaries_def ms_def cs_def Let_def)
  have "sorted_wrt (\<lambda>x y. g (a + x * cs) \<le> g (a + y * cs)) [1 ..< W]"
  proof (rule sorted_wrt_mono_rel [OF _ sorted_wrt_upt])
    fix x y :: nat assume "x < y"
    then have "x * cs \<le> y * cs" by (intro mult_le_mono1) simp
    then show "g (a + x * cs) \<le> g (a + y * cs)" by (intro gm) simp
  qed
  then have sm: "sorted ms" unfolding ms sorted_map .
  have el: "\<forall>b \<in> set ms. a \<le> b \<and> b \<le> length data \<and> (b = length data \<or> data ! (b - 1) = NL)"
    unfolding ms using gb by auto
  have "sorted (a # ms @ [length data])"
    using sm el assms(3) by (auto simp: sorted_append)
  moreover have "last (a # ms @ [length data]) = length data" by simp
  moreover have "\<forall>b \<in> set (ms @ [length data]). b \<le> length data
                  \<and> (b = a \<or> b = length data \<or> data ! (b - 1) = NL)"
    using el by auto
  ultimately show ?thesis using b by blast
qed

lemma Scan_rows:
  assumes "sep \<noteq> NL" and "1 \<le> W" and "IndexByte data NL = Some idx"
    and "idx + 1 < length data" and "regular (drop (idx + 1) data) False []"
  shows "map strip (Scan data sep W defs)
         = chunk_rows sep defs (drop (idx + 1) data) (idx + 1) 2"
proof -
  from boundaries_regular [OF assms(5,2,4)] obtain bs where
    b: "boundaries data (idx + 1) W = (idx + 1) # bs" "sorted ((idx + 1) # bs)"
      "last ((idx + 1) # bs) = length data"
      "\<forall>b \<in> set bs. b \<le> length data
          \<and> (b = idx + 1 \<or> b = length data \<or> data ! (b - 1) = NL)"
    by blast
  show ?thesis
    using Scan_rec [OF assms(2,3,4), of sep defs] scan_rec_rows [OF assms(1,5) b(2,3,4), of defs 0 2]
      b(1)
    by simp
qed

section \<open>Counting all rows: index directory against newline count\<close>

subsection \<open>The build of one index\<close>

text \<open>
  The handler that \<open>Indexer.Run\<close> gives to the scanner: a call of a worker beyond the
  worker buffers is dropped, and every other call makes one record for each of its keys
  (\<open>copy(keyBytes[:], key)\<close>, the offset and the line); the record of key \<open>i\<close> goes to
  the sorter of index definition \<open>i\<close>. \<open>numWorkers\<close> is the number of worker buffers,
  which is the number of workers of the scanner: \<open>config.Workers\<close> when it is positive,
  \<open>runtime.NumCPU()\<close> otherwise. \<open>index_records\<close> lists the records of definition \<open>i\<close> in
  the order of the calls; the batches reach the sorter through a channel, in an order that
  depends on the schedule.
\<close>

definition handler_record :: "scan_call \<Rightarrow> nat \<Rightarrow> IndexRecord" where
  "handler_record c i =
     \<lparr>Key = copy64 (keys c ! i), Offset = word_of_int (row_offset c),
      Line = word_of_int (row_line c)\<rparr>"

definition handler :: "nat \<Rightarrow> scan_call \<Rightarrow> nat \<Rightarrow> IndexRecord list" where
  "handler numWorkers c i =
     (if numWorkers \<le> workerID c then []
      else if i < length (keys c) then [handler_record c i] else [])"

definition index_records :: "nat \<Rightarrow> scan_call list \<Rightarrow> nat \<Rightarrow> IndexRecord list" where
  "index_records numWorkers calls i = concat (map (\<lambda>c. handler numWorkers c i) calls)"

text \<open>
  \<open>runSorterNode\<close>: a sorter with the memory limit that the node computes from the
  configuration (\<open>memoryPerIndex\<close>) and the bloom filter, if the configuration asks for one;
  every record that arrives is added, and \<open>Finalize\<close> writes the index file, which the node
  names after the CSV and the lower-cased column names.
\<close>

definition runSorterNode ::
  "(IndexRecord list \<Rightarrow> (IndexRecord \<Rightarrow> IndexRecord \<Rightarrow> int) \<Rightarrow> IndexRecord list) \<Rightarrow> (string \<Rightarrow> string)
   \<Rightarrow> (string \<Rightarrow> string option) \<Rightarrow> int \<Rightarrow> BloomFilter option \<Rightarrow> IndexRecord list
   \<Rightarrow> error + (int \<times> cidx_file \<times> BloomFilter option)" where
  "runSorterNode sortFunc lz4c lz4d memoryPerIndex bl recs =
     Finalize sortFunc lz4c lz4d
       (foldl (Sorter_Add sortFunc lz4c) (NewSorter memoryPerIndex bl) recs)"

definition index_file_name :: "string \<Rightarrow> string list \<Rightarrow> string" where
  "index_file_name inputFile columns =
     csv_name inputFile @ ''_'' @ ToLower (Join columns ''_'') @ ''.cidx''"

subsection \<open>The two counts\<close>

lemma sum_chunks:
  "sum_list (map (\<lambda>i. count_newlines (slice data (i * cs) (i * cs + cs))) [0 ..< k])
   = count_newlines (take (k * cs) data)"
proof (induction k)
  case 0
  then show ?case by simp
next
  case (Suc k)
  have "take (k * cs + cs) data = take (k * cs) data @ take cs (drop (k * cs) data)"
    by (rule take_add)
  moreover have "Suc k * cs = k * cs + cs" by simp
  ultimately have "take (Suc k * cs) data
                   = take (k * cs) data @ slice data (k * cs) (k * cs + cs)"
    by (simp only: slice_def add_diff_cancel_left')
  then show ?case using Suc by simp
qed

lemma runCountAllViaCsv_count:
  assumes "csv_file fs = Some data" and "data \<noteq> []" and "1 \<le> ncpu"
  shows "runCountAllViaCsv ncpu fs
         = Inr (let t = count_newlines data + (if last data \<noteq> NL then 1 else 0)
                in if 0 < t then t - 1 else t)"
proof -
  define w where "w = (if 16 < ncpu then 16 else ncpu)"
  define cs where "cs = length data div w"
  have w: "1 \<le> w" using assms(3) by (simp add: w_def)
  let ?f = "\<lambda>i. let start = i * cs; end = (if i = w - 1 then length data else start + cs)
                in count_newlines (slice data start end)"
  have u: "[0 ..< w] = [0 ..< w - 1] @ [w - 1]"
    using w by (metis le_add_diff_inverse2 plus_1_eq_Suc upt_Suc_append zero_le add.commute)
  have "map ?f [0 ..< w - 1]
        = map (\<lambda>i. count_newlines (slice data (i * cs) (i * cs + cs))) [0 ..< w - 1]"
    by (rule map_cong) (simp_all add: Let_def)
  then have a: "sum_list (map ?f [0 ..< w - 1]) = count_newlines (take ((w - 1) * cs) data)"
    by (simp only: sum_chunks)
  have b: "?f (w - 1) = count_newlines (drop ((w - 1) * cs) data)"
    by (simp add: Let_def slice_def)
  have "sum_list (map ?f [0 ..< w]) = sum_list (map ?f [0 ..< w - 1]) + ?f (w - 1)"
    by (subst u) simp
  also have "\<dots> = count_newlines (take ((w - 1) * cs) data @ drop ((w - 1) * cs) data)"
    by (simp only: a b count_newlines_simps)
  finally have s: "sum_list (map ?f [0 ..< w]) = count_newlines data" by simp
  show ?thesis
    unfolding runCountAllViaCsv_def assms(1) option.case w_def [symmetric] cs_def [symmetric]
      Let_def s [unfolded Let_def]
    using assms(2) by simp
qed

lemma sum_RecordCount:
  "list_all2 (reads_as lz4d bytes) metas groups \<Longrightarrow>
   sum_list (map RecordCount metas) = int (length (concat groups))
   \<and> (\<forall>m \<in> set metas. RecordCount m \<noteq> 0)"
  by (induction metas groups rule: list_all2_induct) (auto simp: reads_as_def)

lemma index_count:
  assumes lz4: "\<forall>b. lz4d (lz4c b) = Some b" and srt: "sorts_records sortFunc"
    and keys: "keys64 recs" and ne: "recs \<noteq> []" and bl: "bloom_ok bl"
    and dir: "IndexDir cfg \<noteq> []"
  shows "\<exists>n f bl'. runSorterNode sortFunc lz4c lz4d memoryPerIndex bl recs = Inr (n, f, bl')
           \<and> tryCountFromIndex
                 \<lparr>csv_file = csv, updates_file = upd,
                  index_dir = [(index_file_name (CsvPath cfg) columns, f)],
                  bloom_dir = bd\<rparr> cfg
               = Some (int (length recs))"
proof -
  from Finalize_correct [where lz4d = lz4d and lz4c = lz4c, OF lz4 srt keys ne bl,
      of memoryPerIndex] obtain n bl' outs where
    f: "Finalize sortFunc lz4c lz4d
          (foldl (Sorter_Add sortFunc lz4c) (NewSorter memoryPerIndex bl) recs)
        = Inr (n, Close lz4c (foldl (WriteRecord lz4c) NewBlockWriter outs), bl')"
    and m: "mset outs = mset recs"
    by blast
  let ?f = "Close lz4c (foldl (WriteRecord lz4c) NewBlockWriter outs)"
  have "set outs = set recs" using m by (rule mset_eq_setD)
  then have ko: "\<forall>rc \<in> set outs. length (Key rc) = 64" using keys by (simp add: keys64_def)
  from written_file [where lz4d = lz4d and lz4c = lz4c, OF lz4 ko] obtain metas groups where
    w: "footer ?f = Some metas" "list_all2 (reads_as lz4d (body ?f)) metas groups"
      "concat groups = outs"
    by blast
  have "length outs = length recs" using m by (metis size_mset)
  then have s: "sum_list (map RecordCount metas) = int (length recs)"
    "\<forall>m \<in> set metas. RecordCount m \<noteq> 0"
    using sum_RecordCount [OF w(2)] w(3) by auto
  let ?name = "index_file_name (CsvPath cfg) columns"
  have g: "glob_cidx \<lparr>csv_file = csv, updates_file = upd, index_dir = [(?name, ?f)],
                      bloom_dir = bd\<rparr> (csv_name (CsvPath cfg)) = [(?name, ?f)]"
    by (simp add: glob_cidx_def index_file_name_def)
  have "tryCountFromIndex \<lparr>csv_file = csv, updates_file = upd, index_dir = [(?name, ?f)],
                           bloom_dir = bd\<rparr> cfg = Some (int (length recs))"
    unfolding tryCountFromIndex_def g using dir s w(1) by (simp add: NewBlockReader_def)
  then show ?thesis using f by (simp add: runSorterNode_def)
qed

lemma chunk_walk_calls:
  "\<forall>c \<in> set out. workerID c = wid \<and> length (keys c) = length defs \<Longrightarrow>
   (case chunk_walk chunkData sep start wid defs ncols cs bp ls q cl out of
      (ls', q', cl', out') \<Rightarrow> \<forall>c \<in> set out'. workerID c = wid \<and> length (keys c) = length defs)"
proof (induction cs arbitrary: bp ls q cl out)
  case Nil
  then show ?case by simp
next
  case (Cons c cs)
  let ?p = "parseLineSimd (trim_cr (slice chunkData ls bp)) sep (int (start + ls)) wid defs ncols cl"
  have "\<forall>c \<in> set (out @ [?p]). workerID c = wid \<and> length (keys c) = length defs"
    using Cons.prems by (simp add: parseLineSimd_def)
  from Cons.IH [OF this] Cons.IH [OF Cons.prems] show ?case
    by (simp add: Let_def)
qed

lemma processChunk_calls:
  "c \<in> set (processChunk data sep start e wid L defs) \<Longrightarrow>
   workerID c = wid \<and> length (keys c) = length defs"
proof -
  assume a: "c \<in> set (processChunk data sep start e wid L defs)"
  let ?e = "if length data < e then length data else e"
  let ?cd = "slice data start ?e"
  let ?n = "nat (max_col defs + 1)"
  obtain ls q cl out where w: "chunk_walk ?cd sep start wid defs ?n ?cd 0 0 False L [] = (ls, q, cl, out)"
    by (metis prod_cases4)
  have o: "\<forall>c \<in> set out. workerID c = wid \<and> length (keys c) = length defs"
    using chunk_walk_calls [of "[]" wid defs ?cd sep start ?n ?cd 0 0 False L] w by simp
  have "c \<in> set out \<or> c = parseLineSimd (trim_cr (drop ls ?cd)) sep (int (start + ls)) wid defs ?n cl"
    using a w unfolding processChunk_def Let_def
    by (auto split: if_splits)
  then show ?thesis using o by (auto simp: parseLineSimd_def)
qed

lemma Scan_calls:
  assumes "c \<in> set (Scan data sep W defs)"
  shows "workerID c < W \<and> length (keys c) = length defs"
proof -
  from assms obtain i st e L where "i < W" "c \<in> set (processChunk data sep st e i L defs)"
    unfolding Scan_def Let_def by (auto split: option.splits if_splits)
  then show ?thesis using processChunk_calls by blast
qed

lemma index_records_Scan:
  assumes "i < length defs"
  shows "index_records W (Scan data sep W defs) i
         = map (\<lambda>c. handler_record c i) (Scan data sep W defs)"
proof -
  have "map (\<lambda>c. handler W c i) (Scan data sep W defs)
        = map (\<lambda>c. [handler_record c i]) (Scan data sep W defs)"
  proof (intro map_cong refl)
    fix c assume "c \<in> set (Scan data sep W defs)"
    then have "workerID c < W" "length (keys c) = length defs"
      using Scan_calls by blast+
    then show "handler W c i = [handler_record c i]"
      using assms by (simp add: handler_def)
  qed
  then have "index_records W (Scan data sep W defs) i
             = concat (map (\<lambda>c. [handler_record c i]) (Scan data sep W defs))"
    unfolding index_records_def by (rule arg_cong)
  then show ?thesis by (simp only: concat_map_singleton)
qed

lemma length_Scan_regular:
  assumes "sep \<noteq> NL" and "1 \<le> W" and "NL \<notin> set header" and "regular rest False []"
    and "rest \<noteq> []"
  shows "int (length (Scan (header @ NL # rest) sep W defs))
         = count_newlines rest + (if last rest \<noteq> NL then 1 else 0)"
proof -
  let ?data = "header @ NL # rest"
  have i: "IndexByte ?data NL = Some (length header)"
    unfolding IndexByte_Some_iff using assms(3) by (simp add: nth_append)
  have d: "drop (length header + 1) ?data = rest" by simp
  have "map strip (Scan ?data sep W defs)
        = chunk_rows sep defs (drop (length header + 1) ?data) (length header + 1) 2"
    using assms(5) by (intro Scan_rows [OF assms(1,2) i]) (simp_all only: d assms(4), simp)
  then have "length (Scan ?data sep W defs)
             = length (chunk_rows sep defs rest (length header + 1) 2)"
    unfolding d by (metis length_map)
  then show ?thesis
    using length_chunk_rows [OF assms(1,4), of defs "length header + 1" 2] assms(5) by simp
qed


definition c6_cfg :: QueryConfig where
  "c6_cfg = \<lparr>CsvPath = ''data.csv'', IndexDir = ''idx'', GroupBy = [], AggCol = [], AggFunc = [],
             CountOnly = True, Limit = 0, Offset_q = 0, Explain = False\<rparr>"

lemma regular_two_rows: "regular (''1'' @ [NL] @ ''2'' @ [NL]) False []"
  by (simp add: NL_def DQ_def CR_def trim_cr_def)


subsection \<open>A file with an empty line\<close>

definition c6_blank :: string where
  "c6_blank = ''id'' @ [NL] @ ''1'' @ [NL] @ [NL] @ ''2'' @ [NL]"

lemma c6_blank_scan:
  "map strip (Scan c6_blank CHR '','' 1 [[0]]) = [([''1''], 3, 2), ([''2''], 6, 3)]"
  by code_simp

lemma c6_blank_newlines: "count_newlines c6_blank = 4" "last c6_blank = NL" "c6_blank \<noteq> []"
  by code_simp+


section \<open>The composite index of the sample file\<close>

subsection \<open>Column names and column numbers\<close>

text \<open>
  \<open>readHeaders\<close>: the bytes before the first newline, without one trailing carriage return
  and without a leading byte order mark, split at the separator; every name has its white
  space trimmed and one pair of enclosing quotes removed. \<open>GetColumnIndex\<close> looks a name up
  in the header map, whose keys are the lower-cased names; of two columns with the same
  name the later one stays in the map. \<open>colIndices\<close> is what \<open>Indexer.Run\<close> computes before
  the scan: \<open>ValidateColumns\<close> refuses a column that the header does not have, then every
  column name of every index definition gives its column number.
\<close>

definition BOM :: string where
  "BOM = [CHR 0xEF, CHR 0xBB, CHR 0xBF]"

definition readHeaders :: "string \<Rightarrow> char \<Rightarrow> string list option" where
  "readHeaders data sep =
     (case IndexByte data NL of
        None \<Rightarrow> None
      | Some idx \<Rightarrow>
          let line = trim_cr (take idx data);
              line1 = (if 3 \<le> length line \<and> take 3 line = BOM then drop 3 line else line)
          in Some (map (\<lambda>part. unquote (TrimSpace part)) (strings_Split line1 sep)))"

definition GetColumnIndex :: "string list \<Rightarrow> string \<Rightarrow> nat option" where
  "GetColumnIndex headers name =
     map_of (rev (zip (map ToLower headers) [0 ..< length headers])) (ToLower (TrimSpace name))"

definition colIndices :: "string \<Rightarrow> char \<Rightarrow> string list list \<Rightarrow> nat list list option" where
  "colIndices data sep colDefs =
     (case readHeaders data sep of
        None \<Rightarrow> None
      | Some headers \<Rightarrow>
          if list_all (list_all (\<lambda>col. GetColumnIndex headers col \<noteq> None)) colDefs
          then Some (map (map (\<lambda>col. case GetColumnIndex headers col of
                                        None \<Rightarrow> 0 | Some i \<Rightarrow> i)) colDefs)
          else None)"

subsection \<open>Scenario S2\<close>

text \<open>
  The file of scenario S1, with line feeds. The records of the index on \<open>dept\<close>, \<open>name\<close>
  have the bracketed pair of the two values as their key (\<open>s2_key\<close>), padded to 64 bytes;
  \<open>s2_sorted\<close> lists them in the order of the index file. The query configuration asks for
  the count only; the index directory holds the single index file, without a bloom file,
  and there is no overrides file. \<open>s2_children\<close> are the two equalities that
  \<open>ParseCondition\<close> makes of the object \<open>{"dept":"Eng","name":"Carol"}\<close>; it appends them
  in the order of a map iteration, which is not fixed.
\<close>

definition s1_csv :: string where
  "s1_csv = ''id,name,dept'' @ [NL] @ ''1,Alice,Eng'' @ [NL] @ ''2,Bob,Sales'' @ [NL]
            @ ''3,Carol,Eng'' @ [NL] @ ''4,Dave,Eng'' @ [NL]"

definition s2_key :: "string \<Rightarrow> string \<Rightarrow> string" where
  "s2_key dept name = ''['' @ [DQ] @ dept @ [DQ] @ '','' @ [DQ] @ name @ [DQ] @ '']''"

definition s2_record :: "string \<Rightarrow> string \<Rightarrow> int \<Rightarrow> int \<Rightarrow> IndexRecord" where
  "s2_record dept name off ln =
     \<lparr>Key = copy64 (s2_key dept name), Offset = word_of_int off, Line = word_of_int ln\<rparr>"

definition s2_sorted :: "IndexRecord list" where
  "s2_sorted = [s2_record ''Eng'' ''Alice'' 13 2, s2_record ''Eng'' ''Carol'' 37 4,
                s2_record ''Eng'' ''Dave'' 49 5, s2_record ''Sales'' ''Bob'' 25 3]"

definition s2_cfg :: QueryConfig where
  "s2_cfg = \<lparr>CsvPath = ''data.csv'', IndexDir = ''idx'', GroupBy = [], AggCol = [], AggFunc = [],
             CountOnly = True, Limit = 0, Offset_q = 0, Explain = False\<rparr>"

definition s2_fs :: "cidx_file \<Rightarrow> filesystem" where
  "s2_fs f = \<lparr>csv_file = Some s1_csv, updates_file = Missing,
              index_dir = [(index_file_name ''data.csv'' [''dept'', ''name''], f)],
              bloom_dir = []\<rparr>"

definition s2_children :: "Condition list" where
  "s2_children = [Condition ''='' ''dept'' ''Eng'' [], Condition ''='' ''name'' ''Carol'' []]"

definition s2_plan :: plan where
  "s2_plan = \<lparr>strategy = ''Index Scan'', index_name = ''dept_name'',
              covered_columns = [''dept'', ''name'']\<rparr>"

lemma s1_facts:
  "CHR '','' \<noteq> NL" "IndexByte s1_csv NL = Some 12" "12 + 1 < length s1_csv"
  "regular (drop (12 + 1) s1_csv) False []"
  "chunk_rows CHR '','' [[2, 1]] (drop (12 + 1) s1_csv) (12 + 1) 2
   = [([s2_key ''Eng'' ''Alice''], 13, 2), ([s2_key ''Sales'' ''Bob''], 25, 3),
      ([s2_key ''Eng'' ''Carol''], 37, 4), ([s2_key ''Eng'' ''Dave''], 49, 5)]"
  by code_simp+

lemma s1_scan:
  assumes "1 \<le> W"
  shows "map strip (Scan s1_csv CHR '','' W [[2, 1]])
         = [([s2_key ''Eng'' ''Alice''], 13, 2), ([s2_key ''Sales'' ''Bob''], 25, 3),
            ([s2_key ''Eng'' ''Carol''], 37, 4), ([s2_key ''Eng'' ''Dave''], 49, 5)]"
  using Scan_rows [OF s1_facts(1) assms s1_facts(2,3,4), of "[[2, 1]]"]
  by (simp only: s1_facts(5))

lemma handler_record_strip:
  "handler_record c i
   = (case strip c of (ks, off, ln) \<Rightarrow>
        \<lparr>Key = copy64 (ks ! i), Offset = word_of_int off, Line = word_of_int ln\<rparr>)"
  by (simp add: handler_record_def strip_def)

lemma s1_records:
  assumes "1 \<le> W"
  shows "index_records W (Scan s1_csv CHR '','' W [[2, 1]]) 0
         = [s2_record ''Eng'' ''Alice'' 13 2, s2_record ''Sales'' ''Bob'' 25 3,
            s2_record ''Eng'' ''Carol'' 37 4, s2_record ''Eng'' ''Dave'' 49 5]"
proof -
  have "index_records W (Scan s1_csv CHR '','' W [[2, 1]]) 0
        = map (\<lambda>t. case t of (ks, off, ln) \<Rightarrow>
                 \<lparr>Key = copy64 (ks ! 0), Offset = word_of_int off, Line = word_of_int ln\<rparr>)
            (map strip (Scan s1_csv CHR '','' W [[2, 1]]))"
    by (simp add: index_records_Scan handler_record_strip comp_def)
  then show ?thesis
    by (simp only: s1_scan [OF assms]) (simp add: s2_record_def)
qed

lemma s2_sorted_facts:
  "sorted (map sort_key s2_sorted)" "distinct (map sort_key s2_sorted)"
  by code_simp+

lemma s2_outs:
  assumes "mset outs = mset [s2_record ''Eng'' ''Alice'' 13 2, s2_record ''Sales'' ''Bob'' 25 3,
                             s2_record ''Eng'' ''Carol'' 37 4, s2_record ''Eng'' ''Dave'' 49 5]"
    and "sorted (map sort_key outs)"
  shows "outs = s2_sorted"
proof -
  have m: "mset outs = mset s2_sorted"
    using assms(1) by (simp add: s2_sorted_def)
  then have "mset (map sort_key outs) = mset (map sort_key s2_sorted)"
    by (simp only: mset_map)
  then have e: "map sort_key outs = map sort_key s2_sorted"
    using assms(2) s2_sorted_facts(1)
    by (metis properties_for_sort)
  have "set outs = set s2_sorted" using m by (rule mset_eq_setD)
  moreover have "inj_on sort_key (set s2_sorted)"
    using s2_sorted_facts(2) by (simp add: distinct_map)
  ultimately have "inj_on sort_key (set outs \<union> set s2_sorted)" by simp
  then show ?thesis using e by (simp add: inj_on_map_eq_map)
qed

lemma s2_keys64: "\<forall>rc \<in> set s2_sorted. length (Key rc) = 64"
  by (simp add: s2_sorted_def s2_record_def length_copy64)

lemma s2_file:
  assumes lz4: "\<forall>b. lz4d (lz4c b) = Some b"
  shows "\<exists>m. footer (Close lz4c (foldl (WriteRecord lz4c) NewBlockWriter s2_sorted)) = Some [m]
           \<and> StartKey m = TrimRight0 (Key (s2_record ''Eng'' ''Alice'' 13 2))
           \<and> ReadBlock lz4d
                 \<lparr>r = body (Close lz4c (foldl (WriteRecord lz4c) NewBlockWriter s2_sorted)),
                  Footer = [m]\<rparr> m
               = Inr s2_sorted"
proof -
  let ?f = "Close lz4c (foldl (WriteRecord lz4c) NewBlockWriter s2_sorted)"
  from written_file [where lz4d = lz4d and lz4c = lz4c, OF lz4 s2_keys64] obtain metas groups where
    w: "footer ?f = Some metas" "list_all2 (reads_as lz4d (body ?f)) metas groups"
      "concat groups = s2_sorted"
    by blast
  have "length (the (footer ?f)) = 1"
    by (simp add: Close_def WriteRecord_def FlushBlock_def NewBlockWriter_def BlockTargetSize_def
        Let_def s2_sorted_def)
  then have "length metas = 1" using w(1) by simp
  then obtain m where m: "metas = [m]" by (cases metas) auto
  then obtain g where g: "groups = [g]" using w(2) by (auto simp: list_all2_Cons1)
  have r: "reads_as lz4d (body ?f) m s2_sorted" using w(2,3) m g by simp
  then have "ReadBlock lz4d \<lparr>r = body ?f, Footer = [m]\<rparr> m = Inr s2_sorted"
    unfolding reads_as_def by (metis BlockReader.select_convs(1) append_Nil2)
  moreover have "StartKey m = TrimRight0 (Key (s2_record ''Eng'' ''Alice'' 13 2))"
    using r by (simp add: reads_as_def s2_sorted_def)
  ultimately show ?thesis using w(1) m by blast
qed

lemma s2_key_facts:
  "TrimRight0 (Key (s2_record ''Eng'' ''Alice'' 13 2)) = s2_key ''Eng'' ''Alice''"
  "s2_key ''Eng'' ''Alice'' \<le> s2_key ''Eng'' ''Carol''"
  "s2_key ''Eng'' ''Alice'' \<noteq> s2_key ''Eng'' ''Carol''"
  "\<not> s2_key ''Eng'' ''Carol'' < s2_key ''Eng'' ''Alice''"
  "compareRecordKey (Key (s2_record ''Eng'' ''Alice'' 13 2)) (s2_key ''Eng'' ''Carol'') = - 1"
  "compareRecordKey (Key (s2_record ''Eng'' ''Carol'' 37 4)) (s2_key ''Eng'' ''Carol'') = 0"
  "compareRecordKey (Key (s2_record ''Eng'' ''Dave'' 49 5)) (s2_key ''Eng'' ''Carol'') = 1"
  "s1_csv \<noteq> []"
  "csv_name ''data.csv'' = ''data''"
  "index_file_name ''data.csv'' [''dept'', ''name''] = ''data_dept_name.cidx''"
  by code_simp+

lemma s2_planner:
  assumes "cs = s2_children \<or> cs = rev s2_children"
  shows "findBestIndex (s2_fs f) s2_cfg (Some (Condition ''AND'' [] [] cs))
         = Inr (''data_dept_name.cidx'', s2_key ''Eng'' ''Carol'', True, s2_plan)"
proof -
  have c: "sort (map fst (ExtractIndexConditions (Condition ''AND'' [] [] cs)))
           = [''dept'', ''name'']"
    "map_get (ExtractIndexConditions (Condition ''AND'' [] [] cs)) ''dept'' = ''Eng''"
    "map_get (ExtractIndexConditions (Condition ''AND'' [] [] cs)) ''name'' = ''Carol''"
    using assms by (auto simp: s2_children_def ExtractIndexConditions_def map_get_def)
  have n: "(2 :: nat) = Suc (Suc 0)" by simp
  show ?thesis
    unfolding findBestIndex_def Let_def option.case c
    by (simp add: n s2_cfg_def s2_fs_def s2_key_facts(9,10) search_key_for_def c(2,3)
        s2_key_def s2_plan_def)
qed

lemma s2_count:
  "so_records s2_cfg True (s2_key ''Eng'' ''Carol'') None s2_sorted
     \<lparr>count_so = 0, skipped = 0, limitReached = False, written = []\<rparr>
   = \<lparr>count_so = 1, skipped = 0, limitReached = True, written = []\<rparr>"
  by (simp add: s2_sorted_def s2_key_facts(5,6,7) Let_def s2_cfg_def)

lemma s2_run:
  assumes lz4: "\<forall>b. lz4d (lz4c b) = Some b"
    and cs: "cs = s2_children \<or> cs = rev s2_children"
    and f: "f = Close lz4c (foldl (WriteRecord lz4c) NewBlockWriter s2_sorted)"
  shows "Run lz4d ncpu refilter (s2_fs f) (NewQueryEngine unmarshal (s2_fs f) s2_cfg)
             (Some (Condition ''AND'' [] [] cs))
         = Inr (IndexRows [] (Some 1))"
proof -
  from s2_file [where lz4d = lz4d and lz4c = lz4c, OF lz4] obtain m where
    m: "footer f = Some [m]" "StartKey m = s2_key ''Eng'' ''Alice''"
      "ReadBlock lz4d \<lparr>r = body f, Footer = [m]\<rparr> m = Inr s2_sorted"
    unfolding f s2_key_facts(1) by blast
  have q: "NewQueryEngine unmarshal (s2_fs f) s2_cfg
           = \<lparr>config = s2_cfg, Updates = Some \<lparr>Overrides = []\<rparr>\<rparr>"
    by (simp add: NewQueryEngine_def LoadUpdates_def s2_fs_def s2_cfg_def)
  have cov: "(\<forall>k \<in> set (map fst (ExtractIndexConditions (Condition ''AND'' [] [] cs))).
                \<exists>col \<in> set (covered_columns s2_plan). EqualFold col k)"
    using cs by (auto simp: s2_children_def ExtractIndexConditions_def s2_plan_def EqualFold_def)
  have st: "findStartBlock [m] (s2_key ''Eng'' ''Carol'') = 0"
    using m(2) s2_key_facts(2,3) by (simp add: findStartBlock_def bsearch.simps Let_def)
  have br: "NewBlockReader f = Inr \<lparr>r = body f, Footer = [m]\<rparr>"
    using m(1) by (simp add: NewBlockReader_def)
  have so: "runStandardOutput lz4d (s2_fs f) s2_cfg \<lparr>r = body f, Footer = [m]\<rparr>
              (s2_key ''Eng'' ''Carol'') True 0 None
            = Inr (IndexRows [] (Some 1))"
    using m(2,3) s2_key_facts(4,8)
    by (simp add: runStandardOutput_def s2_fs_def s2_count, simp add: s2_cfg_def)
  have i: "map_of (index_dir (s2_fs f)) ''data_dept_name.cidx'' = Some f"
    "bloom_dir (s2_fs f) = []"
    by (simp_all add: s2_fs_def s2_key_facts(10))
  have g: "CsvPath s2_cfg \<noteq> []" "GroupBy s2_cfg = []" "CountOnly s2_cfg" "\<not> Explain s2_cfg"
    by (simp_all add: s2_cfg_def)
  have p: "covered_columns s2_plan \<noteq> []" by (simp add: s2_plan_def)
  show ?thesis
    unfolding Run_def q Let_def
    using cov
    by (simp add: g s2_planner [OF cs] p i br st so
        cong: option.case_cong sum.case_cong prod.case_cong if_cong bool.case_cong)
qed

lemma s2_pipeline:
  assumes lz4: "\<forall>b. lz4d (lz4c b) = Some b" and srt: "sorts_records sortFunc" and W: "1 \<le> W"
    and recs: "mset recs = mset (index_records W (Scan s1_csv CHR '','' W [[2, 1]]) 0)"
    and cs: "cs = s2_children \<or> cs = rev s2_children"
  shows "\<exists>n f bl'.
           runSorterNode sortFunc lz4c lz4d memoryPerIndex None recs = Inr (n, f, bl')
           \<and> findBestIndex (s2_fs f) s2_cfg (Some (Condition ''AND'' [] [] cs))
               = Inr (''data_dept_name.cidx'', s2_key ''Eng'' ''Carol'', True, s2_plan)
           \<and> Run lz4d ncpu refilter (s2_fs f) (NewQueryEngine unmarshal (s2_fs f) s2_cfg)
                 (Some (Condition ''AND'' [] [] cs))
               = Inr (IndexRows [] (Some 1))"
proof -
  note r = recs [unfolded s1_records [OF W]]
  have "set recs = set [s2_record ''Eng'' ''Alice'' 13 2, s2_record ''Sales'' ''Bob'' 25 3,
                        s2_record ''Eng'' ''Carol'' 37 4, s2_record ''Eng'' ''Dave'' 49 5]"
    using r by (rule mset_eq_setD)
  then have k: "keys64 recs"
    by (simp add: keys64_def s2_record_def length_copy64)
  have ne: "recs \<noteq> []" using r by auto
  from Finalize_correct [where lz4d = lz4d and lz4c = lz4c, OF lz4 srt k ne,
      of None memoryPerIndex] obtain n bl' outs where
    f: "Finalize sortFunc lz4c lz4d
          (foldl (Sorter_Add sortFunc lz4c) (NewSorter memoryPerIndex None) recs)
        = Inr (n, Close lz4c (foldl (WriteRecord lz4c) NewBlockWriter outs), bl')"
    and m: "mset outs = mset recs" and s: "sorted (map sort_key outs)"
    by (auto simp: bloom_ok_def)
  have o: "outs = s2_sorted" using m r s by (intro s2_outs) simp_all
  let ?f = "Close lz4c (foldl (WriteRecord lz4c) NewBlockWriter s2_sorted)"
  have "runSorterNode sortFunc lz4c lz4d memoryPerIndex None recs = Inr (n, ?f, bl')"
    using f o by (simp add: runSorterNode_def)
  moreover note s2_planner [OF cs, of ?f]
    s2_run [where lz4d = lz4d and lz4c = lz4c, OF lz4 cs refl, of ncpu refilter unmarshal]
  ultimately show ?thesis by blast
qed

text \<open>
  Claim C8, amended. The file is the sample of scenario S1 with line feeds, the index is
  built on the pair of columns \<open>dept\<close>, \<open>name\<close> (columns 2 and 1 of the header) without a
  bloom filter, with any number of workers, the records reaching the sorter in any order;
  the condition is the one \<open>ParseCondition\<close> makes of \<open>{"dept":"Eng","name":"Carol"}\<close>, an
  \<open>AND\<close> of the two equalities in either order. Then the planner chooses the index
  \<open>data_dept_name.cidx\<close> with the search key \<open>["Eng","Carol"]\<close>, the values in the order of
  the sorted column names, and the count of the query is 1. The LZ4 library is assumed to
  decompress what it compressed and \<open>slices.SortFunc\<close> to sort.
\<close>

theorem composite_lookup_counts_one:
  assumes "\<forall>b. lz4d (lz4c b) = Some b" and "sorts_records sortFunc" and "1 \<le> W"
    and "mset recs = mset (index_records W (Scan s1_csv CHR '','' W [[2, 1]]) 0)"
    and "cs = s2_children \<or> cs = rev s2_children"
  shows "colIndices s1_csv CHR '','' [[''dept'', ''name'']] = Some [[2, 1]]
         \<and> (\<exists>n f bl'.
               runSorterNode sortFunc lz4c lz4d memoryPerIndex None recs = Inr (n, f, bl')
               \<and> findBestIndex (s2_fs f) s2_cfg (Some (Condition ''AND'' [] [] cs))
                   = Inr (''data_dept_name.cidx'', s2_key ''Eng'' ''Carol'', True, s2_plan)
               \<and> Run lz4d ncpu refilter (s2_fs f) (NewQueryEngine unmarshal (s2_fs f) s2_cfg)
                     (Some (Condition ''AND'' [] [] cs))
                   = Inr (IndexRows [] (Some 1)))"
proof -
  have "colIndices s1_csv CHR '','' [[''dept'', ''name'']] = Some [[2, 1]]"
    by code_simp
  then show ?thesis
    using s2_pipeline [where lz4d = lz4d and lz4c = lz4c, OF assms] by simp
qed

theorem composite_lookup_counts_one_witness:
  "colIndices s1_csv CHR '','' [[''dept'', ''name'']] = Some [[2, 1]]
   \<and> (\<exists>n f bl'.
         runSorterNode (\<lambda>xs cmp. List.sort_key sort_key xs) id Some 10485760 None
             (index_records 2 (Scan s1_csv CHR '','' 2 [[2, 1]]) 0)
           = Inr (n, f, bl')
         \<and> findBestIndex (s2_fs f) s2_cfg (Some (Condition ''AND'' [] [] s2_children))
             = Inr (''data_dept_name.cidx'', s2_key ''Eng'' ''Carol'', True, s2_plan)
         \<and> Run Some 4 (\<lambda>c rc. True) (s2_fs f)
               (NewQueryEngine (\<lambda>data. None) (s2_fs f) s2_cfg)
               (Some (Condition ''AND'' [] [] s2_children))
             = Inr (IndexRows [] (Some 1)))"
  using composite_lookup_counts_one
    [of Some id "\<lambda>xs cmp. List.sort_key sort_key xs" 2
        "index_records 2 (Scan s1_csv CHR '','' 2 [[2, 1]]) 0" s2_children
        10485760 4 "\<lambda>c rc. True" "\<lambda>data. None"]
    sort_key_sorts
  by simp

text \<open>
  Claim C8 as stated names the search key \<open>["Carol","Eng"]\<close>. The planner sorts the column
  names, not the values: for the index built from the sample file and the condition of the
  scenario, with its two equalities in either order, the search key is \<open>["Eng","Carol"]\<close>,
  which is also the key that the scanner gave the row of Carol.
\<close>

theorem composite_search_key:
  "\<exists>n f bl'.
     runSorterNode (\<lambda>xs cmp. List.sort_key sort_key xs) id Some 10485760 None
         (index_records 1 (Scan s1_csv CHR '','' 1 [[2, 1]]) 0)
       = Inr (n, f, bl')
     \<and> findBestIndex (s2_fs f) s2_cfg (Some (Condition ''AND'' [] [] s2_children))
         = Inr (''data_dept_name.cidx'', s2_key ''Eng'' ''Carol'', True, s2_plan)
     \<and> findBestIndex (s2_fs f) s2_cfg (Some (Condition ''AND'' [] [] (rev s2_children)))
         = Inr (''data_dept_name.cidx'', s2_key ''Eng'' ''Carol'', True, s2_plan)
     \<and> s2_key ''Eng'' ''Carol'' \<noteq> s2_key ''Carol'' ''Eng''
     \<and> map keys (Scan s1_csv CHR '','' 1 [[2, 1]]) ! 2 = [s2_key ''Eng'' ''Carol'']"
proof -
  have a: "s2_key ''Eng'' ''Carol'' \<noteq> s2_key ''Carol'' ''Eng''"
    "map keys (Scan s1_csv CHR '','' 1 [[2, 1]]) ! 2 = [s2_key ''Eng'' ''Carol'']"
    by code_simp+
  from s2_pipeline [where lz4d = Some and lz4c = id, OF _ sort_key_sorts _ refl, of 1 s2_children
      10485760 4 "\<lambda>c rc. True" "\<lambda>data. None"]
  obtain n f bl' where
    "runSorterNode (\<lambda>xs cmp. List.sort_key sort_key xs) id Some 10485760 None
         (index_records 1 (Scan s1_csv CHR '','' 1 [[2, 1]]) 0)
       = Inr (n, f, bl')"
    by auto
  then show ?thesis
    using a s2_planner [of s2_children] s2_planner [of "rev s2_children"] by blast
qed

end
